theory Spec2Isabelle
  imports Complex_Main "HOL-Library.AList"
begin

section \<open>Python values used by the matching scripts\<close>

text \<open>
  The scripts raise no exception of their own.  What can go wrong is a dictionary lookup
  with a missing key (\<open>KeyError\<close>) and \<open>list.index\<close> of an absent element
  (\<open>ValueError\<close>).  A dictionary is an association list with the keys in insertion
  order; \<open>d[k] = v\<close> is \<open>AList.update k v d\<close>, which overwrites in place when the key is
  present and appends the entry otherwise.
\<close>

datatype error = KeyError | ValueError

type_synonym ('k, 'v) dict = "('k \<times> 'v) list"

definition getitem :: "('k, 'v) dict \<Rightarrow> 'k \<Rightarrow> error + 'v" where
  "getitem d k = (case map_of d k of None \<Rightarrow> Inl KeyError | Some v \<Rightarrow> Inr v)"

fun list_index :: "'a list \<Rightarrow> 'a \<Rightarrow> error + nat" where
  "list_index [] x = Inl ValueError"
| "list_index (y # ys) x =
     (if y = x then Inr 0
      else case list_index ys x of Inl e \<Rightarrow> Inl e | Inr i \<Rightarrow> Inr (Suc i))"

section \<open>\<open>stable_marriage\<close> (Ethical\_Mutual\_Happiness\_Stable\_Marriage\_Solutions.py)\<close>

text \<open>The three local variables of \<open>stable_marriage\<close>.\<close>

record ('m, 'w) state =
  free_men :: "'m list"
  engaged :: "('w, 'm) dict"
  proposals :: "('m, 'w list) dict"

text \<open>
  \<open>free_men = list(men_preferences.keys())\<close>, \<open>engaged = {}\<close>,
  \<open>proposals = {man: [] for man in men_preferences}\<close>.
\<close>

definition initial_state :: "('m, 'w list) dict \<Rightarrow> ('m, 'w) state" where
  "initial_state men_preferences =
     \<lparr>free_men = map fst men_preferences,
      engaged = [],
      proposals = map (\<lambda>man. (man, [])) (map fst men_preferences)\<rparr>"

text \<open>
  The body of \<open>for woman in man_pref_list\<close>, for one \<open>woman\<close>.  The flag returned with
  the state tells whether the body ended in \<open>break\<close>.
\<close>

definition proposal_step ::
  "('w, 'm list) dict \<Rightarrow> 'm \<Rightarrow> 'w \<Rightarrow> ('m, 'w) state \<Rightarrow> error + (bool \<times> ('m, 'w) state)" where
  "proposal_step women_preferences man woman s =
     (case getitem (proposals s) man of
        Inl e \<Rightarrow> Inl e
      | Inr ps \<Rightarrow>
          if woman \<in> set ps then Inr (False, s)
          else
            let s1 = s\<lparr>proposals := AList.update man (ps @ [woman]) (proposals s)\<rparr> in
            (case map_of (engaged s1) woman of
               None \<Rightarrow> Inr (True, s1\<lparr>engaged := AList.update woman man (engaged s1)\<rparr>)
             | Some current_man \<Rightarrow>
                 (case getitem women_preferences woman of
                    Inl e \<Rightarrow> Inl e
                  | Inr wl \<Rightarrow>
                      (case list_index wl man of
                         Inl e \<Rightarrow> Inl e
                       | Inr i \<Rightarrow>
                           (case list_index wl current_man of
                              Inl e \<Rightarrow> Inl e
                            | Inr j \<Rightarrow>
                                if i < j
                                then Inr (True,
                                       s1\<lparr>free_men := free_men s1 @ [current_man],
                                          engaged := AList.update woman man (engaged s1)\<rparr>)
                                else Inr (False, s1))))))"

text \<open>The \<open>for\<close> loop over the rest of the man's list.\<close>

fun for_woman ::
  "('w, 'm list) dict \<Rightarrow> 'm \<Rightarrow> 'w list \<Rightarrow> ('m, 'w) state \<Rightarrow> error + ('m, 'w) state" where
  "for_woman women_preferences man [] s = Inr s"
| "for_woman women_preferences man (woman # rest) s =
     (case proposal_step women_preferences man woman s of
        Inl e \<Rightarrow> Inl e
      | Inr (brk, s') \<Rightarrow> if brk then Inr s' else for_woman women_preferences man rest s')"

text \<open>
  The body of \<open>while free_men\<close>: \<open>man = free_men.pop(0)\<close>,
  \<open>man_pref_list = men_preferences[man]\<close>, then the \<open>for\<close> loop.
\<close>

definition while_body ::
  "('m, 'w list) dict \<Rightarrow> ('w, 'm list) dict \<Rightarrow> ('m, 'w) state \<Rightarrow> error + ('m, 'w) state" where
  "while_body men_preferences women_preferences s =
     (case free_men s of
        [] \<Rightarrow> Inr s
      | man # rest \<Rightarrow>
          (case getitem men_preferences man of
             Inl e \<Rightarrow> Inl e
           | Inr man_pref_list \<Rightarrow>
               for_woman women_preferences man man_pref_list (s\<lparr>free_men := rest\<rparr>)))"

text \<open>
  The quantity that goes down with every turn of the \<open>while\<close> loop: twice the number of
  list entries not yet proposed to, plus the length of the queue.
\<close>

definition proposed :: "('m, 'w) state \<Rightarrow> 'm \<Rightarrow> 'w list" where
  "proposed s man = (case map_of (proposals s) man of None \<Rightarrow> [] | Some ps \<Rightarrow> ps)"

definition remaining :: "('m, 'w list) dict \<Rightarrow> ('m, 'w) state \<Rightarrow> nat" where
  "remaining men_preferences s =
     sum_list (map (\<lambda>(man, l). card (set l - set (proposed s man))) men_preferences)"

definition loop_measure :: "('m, 'w list) dict \<Rightarrow> ('m, 'w) state \<Rightarrow> nat" where
  "loop_measure men_preferences s = 2 * remaining men_preferences s + length (free_men s)"

lemma sum_list_one_less:
  fixes f g :: "'a \<Rightarrow> nat"
  assumes "\<forall>x \<in> set xs. f x \<le> g x" and "a \<in> set xs" and "f a < g a"
  shows "sum_list (map f xs) < sum_list (map g xs)"
  using assms
proof (induction xs)
  case Nil
  then show ?case by simp
next
  case (Cons x xs)
  show ?case
  proof (cases "a \<in> set xs")
    case True
    with Cons have "sum_list (map f xs) < sum_list (map g xs)" by simp
    moreover from Cons.prems have "f x \<le> g x" by simp
    ultimately show ?thesis by simp
  next
    case False
    with Cons.prems have ax: "a = x" by simp
    from Cons.prems have "\<forall>y \<in> set xs. f y \<le> g y" by simp
    then have "sum_list (map f xs) \<le> sum_list (map g xs)"
      by (simp add: sum_list_mono)
    with ax Cons.prems(3) show ?thesis by simp
  qed
qed

lemma remaining_append:
  assumes "map_of men_preferences man = Some l" and "woman \<in> set l"
    and "map_of (proposals s) man = Some ps" and "woman \<notin> set ps"
    and "proposals s' = AList.update man (ps @ [woman]) (proposals s)"
  shows "remaining men_preferences s' < remaining men_preferences s"
proof -
  have p': "\<And>m. proposed s' m = (if m = man then ps @ [woman] else proposed s m)"
    using assms(5) by (simp add: proposed_def update_conv')
  have p: "proposed s man = ps"
    using assms(3) by (simp add: proposed_def)
  have mem: "(man, l) \<in> set men_preferences"
    using assms(1) by (rule map_of_SomeD)
  have le: "\<forall>x \<in> set men_preferences.
      (case x of (m, l) \<Rightarrow> card (set l - set (proposed s' m)))
      \<le> (case x of (m, l) \<Rightarrow> card (set l - set (proposed s m)))"
  proof
    fix x assume "x \<in> set men_preferences"
    obtain m k where x: "x = (m, k)" by (cases x)
    have "set k - set (proposed s' m) \<subseteq> set k - set (proposed s m)"
      using p p' by auto
    then have "card (set k - set (proposed s' m)) \<le> card (set k - set (proposed s m))"
      by (intro card_mono) auto
    then show "(case x of (m, l) \<Rightarrow> card (set l - set (proposed s' m)))
      \<le> (case x of (m, l) \<Rightarrow> card (set l - set (proposed s m)))"
      using x by simp
  qed
  have "set l - set (proposed s' man) \<subset> set l - set (proposed s man)"
    using p p' assms(2,4) by auto
  then have "card (set l - set (proposed s' man)) < card (set l - set (proposed s man))"
    by (intro psubset_card_mono) auto
  then have lt: "(case (man, l) of (m, l) \<Rightarrow> card (set l - set (proposed s' m)))
      < (case (man, l) of (m, l) \<Rightarrow> card (set l - set (proposed s m)))"
    by simp
  show ?thesis
    unfolding remaining_def by (rule sum_list_one_less [OF le mem lt])
qed

lemma proposal_step_measure:
  assumes "proposal_step women_preferences man woman s = Inr (brk, s')"
    and "map_of men_preferences man = Some l" and "woman \<in> set l"
  shows "loop_measure men_preferences s' \<le> loop_measure men_preferences s"
proof -
  obtain ps where ps: "map_of (proposals s) man = Some ps"
    using assms(1) by (auto simp: proposal_step_def getitem_def split: option.splits)
  show ?thesis
  proof (cases "woman \<in> set ps")
    case True
    with assms(1) ps have "s' = s"
      by (simp add: proposal_step_def getitem_def)
    then show ?thesis by simp
  next
    case False
    from assms(1) ps False
    have upd: "proposals s' = AList.update man (ps @ [woman]) (proposals s)"
      and len: "length (free_men s') \<le> Suc (length (free_men s))"
      by (auto simp: proposal_step_def getitem_def Let_def
          split: option.splits sum.splits if_splits)
    have "remaining men_preferences s' < remaining men_preferences s"
      by (rule remaining_append [OF assms(2,3) ps False upd])
    with len show ?thesis by (simp add: loop_measure_def)
  qed
qed

lemma for_woman_measure:
  assumes "for_woman women_preferences man ws s = Inr s'"
    and "map_of men_preferences man = Some l" and "set ws \<subseteq> set l"
  shows "loop_measure men_preferences s' \<le> loop_measure men_preferences s"
  using assms
proof (induction ws arbitrary: s)
  case Nil
  then show ?case by simp
next
  case (Cons woman rest)
  from Cons.prems(1) obtain brk s1
    where step: "proposal_step women_preferences man woman s = Inr (brk, s1)"
      and rest: "if brk then s' = s1 else for_woman women_preferences man rest s1 = Inr s'"
    by (auto split: sum.splits if_splits)
  have m1: "loop_measure men_preferences s1 \<le> loop_measure men_preferences s"
    using proposal_step_measure [OF step Cons.prems(2)] Cons.prems(3) by simp
  show ?case
  proof (cases brk)
    case True
    with rest m1 show ?thesis by simp
  next
    case False
    with rest have "for_woman women_preferences man rest s1 = Inr s'" by simp
    from Cons.IH [OF this Cons.prems(2)] Cons.prems(3)
    have "loop_measure men_preferences s' \<le> loop_measure men_preferences s1" by simp
    with m1 show ?thesis by simp
  qed
qed

lemma while_body_measure:
  assumes "while_body men_preferences women_preferences s = Inr s'" and "free_men s \<noteq> []"
  shows "loop_measure men_preferences s' < loop_measure men_preferences s"
proof -
  from assms(2) obtain man rest where fm: "free_men s = man # rest"
    by (cases "free_men s") auto
  with assms(1) obtain l where l: "map_of men_preferences man = Some l"
    and fw: "for_woman women_preferences man l (s\<lparr>free_men := rest\<rparr>) = Inr s'"
    by (auto simp: while_body_def getitem_def split: option.splits)
  have "loop_measure men_preferences s' \<le> loop_measure men_preferences (s\<lparr>free_men := rest\<rparr>)"
    by (rule for_woman_measure [OF fw l]) simp
  also have "\<dots> < loop_measure men_preferences s"
    using fm by (simp add: loop_measure_def remaining_def proposed_def)
  finally show ?thesis .
qed

text \<open>The \<open>while free_men\<close> loop.  An exception ends it.\<close>

function while_free_men ::
  "('m, 'w list) dict \<Rightarrow> ('w, 'm list) dict \<Rightarrow> ('m, 'w) state \<Rightarrow> error + ('m, 'w) state" where
  "while_free_men men_preferences women_preferences s =
     (if free_men s = [] then Inr s
      else case while_body men_preferences women_preferences s of
             Inl e \<Rightarrow> Inl e
           | Inr s' \<Rightarrow> while_free_men men_preferences women_preferences s')"
  by pat_completeness auto
termination
  by (relation "measure (\<lambda>(men_preferences, women_preferences, s).
        loop_measure men_preferences s)")
     (auto simp: while_body_measure)

declare while_free_men.simps [simp del]

text \<open>\<open>stable_marriage\<close> runs the loop from the initial state and returns \<open>engaged\<close>.\<close>

definition run_stable_marriage ::
  "('m, 'w list) dict \<Rightarrow> ('w, 'm list) dict \<Rightarrow> error + ('m, 'w) state" where
  "run_stable_marriage men_preferences women_preferences =
     while_free_men men_preferences women_preferences (initial_state men_preferences)"

definition stable_marriage ::
  "('m, 'w list) dict \<Rightarrow> ('w, 'm list) dict \<Rightarrow> error + ('w, 'm) dict" where
  "stable_marriage men_preferences women_preferences =
     (case run_stable_marriage men_preferences women_preferences of
        Inl e \<Rightarrow> Inl e
      | Inr s \<Rightarrow> Inr (engaged s))"

section \<open>Preference ranks and the states a run passes through\<close>

text \<open>
  \<open>rank l x\<close> is the position of the first occurrence of \<open>x\<close> in \<open>l\<close> (0 is the most
  preferred); it is what \<open>l.index(x)\<close> returns when \<open>x\<close> is in \<open>l\<close>.  \<open>reach\<close> holds of
  every pair of a state and a position in the code that a run of \<open>stable_marriage\<close> passes
  through: \<open>None\<close> is the head of the \<open>while\<close> loop, \<open>Some (man, ws)\<close> the head of the
  \<open>for\<close> loop of \<open>man\<close> with \<open>ws\<close> still to come.  Each \<open>proposal\<close> step is one run of the
  body of the \<open>for\<close> loop.
\<close>


definition rank :: "'a list \<Rightarrow> 'a \<Rightarrow> nat" where
  "rank l x = length (takeWhile (\<lambda>y. y \<noteq> x) l)"

definition prefs_of :: "('k, 'v list) dict \<Rightarrow> 'k \<Rightarrow> 'v list" where
  "prefs_of d k = (case map_of d k of None \<Rightarrow> [] | Some l \<Rightarrow> l)"

inductive reach ::
  "('m, 'w list) dict \<Rightarrow> ('w, 'm list) dict \<Rightarrow> ('m, 'w) state \<times> ('m \<times> 'w list) option \<Rightarrow> bool"
  for men_preferences women_preferences where
  start: "reach men_preferences women_preferences (initial_state men_preferences, None)"
| pop: "reach men_preferences women_preferences (s, None) \<Longrightarrow> free_men s = man # rest \<Longrightarrow>
        getitem men_preferences man = Inr man_pref_list \<Longrightarrow>
        reach men_preferences women_preferences (s\<lparr>free_men := rest\<rparr>, Some (man, man_pref_list))"
| proposal: "reach men_preferences women_preferences (s, Some (man, woman # ws)) \<Longrightarrow>
        proposal_step women_preferences man woman s = Inr (brk, s') \<Longrightarrow>
        reach men_preferences women_preferences (s', if brk then None else Some (man, ws))"
| exhausted: "reach men_preferences women_preferences (s, Some (man, [])) \<Longrightarrow>
        reach men_preferences women_preferences (s, None)"

lemma list_index_rank: "x \<in> set l \<Longrightarrow> list_index l x = Inr (rank l x)"
  by (induction l) (auto simp: rank_def)

lemma list_index_Inr: "list_index l x = Inr i \<Longrightarrow> x \<in> set l \<and> i = rank l x"
  by (induction l arbitrary: i) (auto simp: rank_def split: if_splits sum.splits)


lemma rank_less_length: "x \<in> set l \<Longrightarrow> rank l x < length l"
  by (induction l) (auto simp: rank_def)

lemma rank_notin: "x \<notin> set l \<Longrightarrow> rank l x = length l"
  by (induction l) (auto simp: rank_def)

lemma rank_append_le: "rank (ds @ w # ws) w \<le> length ds"
  by (induction ds) (auto simp: rank_def)

lemma rank_append_ge: "r \<notin> set ds \<Longrightarrow> length ds \<le> rank (ds @ ws) r"
  by (induction ds) (auto simp: rank_def)

lemma rank_before: "rank (ds @ w # ws) r < rank (ds @ w # ws) w \<Longrightarrow> r \<in> set ds"
  using rank_append_le [of ds w ws] rank_append_ge [of r ds "w # ws"] by fastforce

lemma update_absent: "map_of e w = None \<Longrightarrow> AList.update w m e = e @ [(w, m)]"
  by (induction e) (auto split: if_splits)

lemma update_present:
  "map_of e w = Some c \<Longrightarrow>
     \<exists>e1 e2. e = e1 @ (w, c) # e2 \<and> AList.update w m e = e1 @ (w, m) # e2 \<and> w \<notin> fst ` set e1"
proof (induction e)
  case Nil
  then show ?case by simp
next
  case (Cons p e)
  show ?case
  proof (cases "fst p = w")
    case True
    with Cons.prems have "p = (w, c)" by (cases p) auto
    then have "p # e = [] @ (w, c) # e \<and> AList.update w m (p # e) = [] @ (w, m) # e
        \<and> w \<notin> fst ` set []" by simp
    then show ?thesis by blast
  next
    case False
    with Cons.prems have "map_of e w = Some c" by (cases p) (auto split: if_splits)
    from Cons.IH [OF this] obtain e1 e2 where
      "e = e1 @ (w, c) # e2" "AList.update w m e = e1 @ (w, m) # e2" "w \<notin> fst ` set e1"
      by blast
    with False have "p # e = (p # e1) @ (w, c) # e2
        \<and> AList.update w m (p # e) = (p # e1) @ (w, m) # e2 \<and> w \<notin> fst ` set (p # e1)"
      by auto
    then show ?thesis by blast
  qed
qed

lemma set_update_present:
  assumes "distinct (map fst e)" and "map_of e w = Some c"
  shows "set (AList.update w m e) = insert (w, m) (set e - {(w, c)})"
proof -
  from update_present [OF assms(2), of m] obtain e1 e2 where
    e: "e = e1 @ (w, c) # e2" and u: "AList.update w m e = e1 @ (w, m) # e2" by blast
  from assms(1) e have "(w, c) \<notin> set e1" "(w, c) \<notin> set e2"
    by (auto simp: image_iff)
  with e u show ?thesis by auto
qed

lemma distinct_snd_update_present:
  assumes "distinct (map snd e)" and "map_of e w = Some c" and "m \<notin> snd ` set e"
  shows "distinct (map snd (AList.update w m e))"
proof -
  from update_present [OF assms(2), of m] obtain e1 e2 where
    e: "e = e1 @ (w, c) # e2" and u: "AList.update w m e = e1 @ (w, m) # e2" by blast
  with assms(1,3) show ?thesis by auto
qed

lemma proposal_step_cases:
  assumes "proposal_step women_preferences man woman s = Inr (brk, s')"
  obtains
    (skip) "man \<in> fst ` set (proposals s)" "woman \<in> set (proposed s man)" "\<not> brk" "s' = s"
  | (engage) "man \<in> fst ` set (proposals s)" "woman \<notin> set (proposed s man)"
      "map_of (engaged s) woman = None" "brk"
      "proposals s' = AList.update man (proposed s man @ [woman]) (proposals s)"
      "engaged s' = engaged s @ [(woman, man)]" "free_men s' = free_men s"
  | (displace) current_man where
      "man \<in> fst ` set (proposals s)" "woman \<notin> set (proposed s man)"
      "map_of (engaged s) woman = Some current_man" "brk"
      "man \<in> set (prefs_of women_preferences woman)"
      "current_man \<in> set (prefs_of women_preferences woman)"
      "rank (prefs_of women_preferences woman) man
         < rank (prefs_of women_preferences woman) current_man"
      "proposals s' = AList.update man (proposed s man @ [woman]) (proposals s)"
      "engaged s' = AList.update woman man (engaged s)"
      "free_men s' = free_men s @ [current_man]"
  | (reject) current_man where
      "man \<in> fst ` set (proposals s)" "woman \<notin> set (proposed s man)"
      "map_of (engaged s) woman = Some current_man" "\<not> brk"
      "man \<in> set (prefs_of women_preferences woman)"
      "current_man \<in> set (prefs_of women_preferences woman)"
      "rank (prefs_of women_preferences woman) current_man
         \<le> rank (prefs_of women_preferences woman) man"
      "proposals s' = AList.update man (proposed s man @ [woman]) (proposals s)"
      "engaged s' = engaged s" "free_men s' = free_men s"
proof -
  from assms obtain ps where ps: "map_of (proposals s) man = Some ps"
    by (auto simp: proposal_step_def getitem_def split: option.splits)
  then have dom: "man \<in> fst ` set (proposals s)" and p: "proposed s man = ps"
    by (auto simp: proposed_def dest: map_of_SomeD intro: rev_image_eqI)
  show thesis
  proof (cases "woman \<in> set ps")
    case True
    with assms ps p dom show ?thesis
      by (intro skip) (auto simp: proposal_step_def getitem_def Let_def)
  next
    case new: False
    show ?thesis
    proof (cases "map_of (engaged s) woman")
      case None
      with assms ps p dom new show ?thesis
        by (intro engage) (auto simp: proposal_step_def getitem_def Let_def update_absent)
    next
      case (Some cm)
      with assms ps new obtain wl i j where
        wl: "map_of women_preferences woman = Some wl"
        and i: "list_index wl man = Inr i" and j: "list_index wl cm = Inr j"
        by (auto simp: proposal_step_def getitem_def Let_def split: option.splits sum.splits)
      from wl have pw: "prefs_of women_preferences woman = wl" by (simp add: prefs_of_def)
      from i j have ij: "man \<in> set wl" "i = rank wl man" "cm \<in> set wl" "j = rank wl cm"
        by (auto dest: list_index_Inr)
      show ?thesis
      proof (cases "i < j")
        case True
        with assms ps p dom new Some wl i j ij pw show ?thesis
          by (intro displace [of cm]) (auto simp: proposal_step_def getitem_def Let_def)
      next
        case False
        with assms ps p dom new Some wl i j ij pw show ?thesis
          by (intro reject [of cm]) (auto simp: proposal_step_def getitem_def Let_def)
      qed
    qed
  qed
qed


subsection \<open>Invariants of the run\<close>

text \<open>
  \<open>keys d\<close> is \<open>d.keys()\<close>.  The first invariant: the queue has no man twice and holds
  proposers only; \<open>engaged\<close> has no woman and no man twice; no engaged man waits in the
  queue; and the man whose \<open>for\<close> loop is running is neither queued nor engaged.  It needs
  the keys of \<open>men_preferences\<close> to be distinct, which holds of every dictionary.
\<close>

definition keys :: "('k, 'v) dict \<Rightarrow> 'k list" where
  "keys d = map fst d"

definition matching_state ::
  "('m, 'w list) dict \<Rightarrow> ('m, 'w) state \<times> ('m \<times> 'w list) option \<Rightarrow> bool" where
  "matching_state men_preferences c =
     (case c of (s, pc) \<Rightarrow>
        distinct (free_men s) \<and> set (free_men s) \<subseteq> set (keys men_preferences) \<and>
        distinct (map fst (engaged s)) \<and> distinct (map snd (engaged s)) \<and>
        snd ` set (engaged s) \<inter> set (free_men s) = {} \<and>
        snd ` set (engaged s) \<subseteq> set (keys men_preferences) \<and>
        (case pc of
           None \<Rightarrow> True
         | Some (man, ws) \<Rightarrow>
             man \<in> set (keys men_preferences) \<and> man \<notin> set (free_men s) \<and>
             man \<notin> snd ` set (engaged s)))"

lemma reach_matching_state:
  assumes "reach men_preferences women_preferences c"
    and "distinct (keys men_preferences)"
  shows "matching_state men_preferences c"
  using assms
proof (induction rule: reach.induct)
  case start
  then show ?case
    by (simp add: matching_state_def initial_state_def keys_def)
next
  case (pop s man rest man_pref_list)
  then show ?case
    by (auto simp: matching_state_def)
next
  case (exhausted s man)
  then show ?case
    by (simp add: matching_state_def)
next
  case (proposal s man woman ws brk s')
  from proposal.IH proposal.prems
  have pre: "distinct (free_men s)" "set (free_men s) \<subseteq> set (keys men_preferences)"
    "distinct (map fst (engaged s))" "distinct (map snd (engaged s))"
    "snd ` set (engaged s) \<inter> set (free_men s) = {}"
    "snd ` set (engaged s) \<subseteq> set (keys men_preferences)"
    "man \<in> set (keys men_preferences)" "man \<notin> set (free_men s)"
    "man \<notin> snd ` set (engaged s)"
    by (simp_all add: matching_state_def)
  from proposal.hyps(2) show ?case
  proof (cases rule: proposal_step_cases)
    case skip
    with pre show ?thesis by (simp add: matching_state_def)
  next
    case engage
    have "woman \<notin> fst ` set (engaged s)"
      using engage(3) by (simp add: map_of_eq_None_iff)
    with pre engage show ?thesis
      by (auto simp: matching_state_def)
  next
    case (displace current_man)
    have cm: "(woman, current_man) \<in> set (engaged s)"
      using displace(3) by (rule map_of_SomeD)
    then have cmr: "current_man \<in> snd ` set (engaged s)"
      by (auto intro: rev_image_eqI)
    have se: "set (engaged s') = insert (woman, man) (set (engaged s) - {(woman, current_man)})"
      using displace(9) set_update_present [OF pre(3) displace(3)] by simp
    have uniq: "\<And>w. (w, current_man) \<in> set (engaged s) \<Longrightarrow> w = woman"
      using pre(4) cm by (metis eq_key_imp_eq_value distinct_map inj_on_def snd_conv prod.inject)
    have d1: "distinct (map fst (engaged s'))"
      using displace(9) pre(3) by (simp add: distinct_update)
    have d2: "distinct (map snd (engaged s'))"
      using displace(9) distinct_snd_update_present [OF pre(4) displace(3) pre(9)] by simp
    have ran: "snd ` set (engaged s') \<subseteq> insert man (snd ` set (engaged s) - {current_man})"
      using se uniq by (auto simp: image_iff)
    have f: "free_men s' = free_men s @ [current_man]" by (rule displace(10))
    have "distinct (free_men s')" using f pre(1,5) cmr by auto
    moreover have "set (free_men s') \<subseteq> set (keys men_preferences)"
      using f pre(2,6) cmr by auto
    moreover have "snd ` set (engaged s') \<inter> set (free_men s') = {}"
      using ran f pre(5,8,9) cmr by auto
    moreover have "snd ` set (engaged s') \<subseteq> set (keys men_preferences)"
      using ran pre(6,7) by auto
    ultimately show ?thesis
      using d1 d2 displace(4) by (simp add: matching_state_def)
  next
    case (reject current_man)
    with pre show ?thesis by (simp add: matching_state_def)
  qed
qed


lemma proposed_update:
  "proposals s' = AList.update man l (proposals s) \<Longrightarrow>
     proposed s' m = (if m = man then l else proposed s m)"
  by (simp add: proposed_def update_conv')

lemma proposed_initial: "proposed (initial_state men_preferences) m = []"
  by (auto simp: proposed_def initial_state_def split: option.splits dest!: map_of_SomeD)

lemma set_update_subset: "set (AList.update k v al) \<subseteq> insert (k, v) (set al)"
  by (induction al) auto

lemma getitem_prefs_of: "getitem d k = Inr l \<Longrightarrow> prefs_of d k = l"
  by (auto simp: getitem_def prefs_of_def split: option.splits)

lemma reach_proposals_keys:
  assumes "reach men_preferences women_preferences c"
  shows "keys (proposals (fst c)) = keys men_preferences"
  using assms
proof (induction rule: reach.induct)
  case start
  then show ?case by (simp add: initial_state_def keys_def comp_def)
next
  case (pop s man rest man_pref_list)
  then show ?case by simp
next
  case (exhausted s man)
  then show ?case by simp
next
  case (proposal s man woman ws brk s')
  from proposal.hyps(2) have "map fst (proposals s') = map fst (proposals s)"
    by (cases rule: proposal_step_cases) (auto simp: update_keys)
  with proposal.IH show ?case by (simp add: keys_def)
qed

text \<open>
  The proposals of a man are free of repetitions and taken from his list, and inside his
  \<open>for\<close> loop he has proposed to every woman the loop has passed.
\<close>

definition history_state ::
  "('m, 'w list) dict \<Rightarrow> ('m, 'w) state \<times> ('m \<times> 'w list) option \<Rightarrow> bool" where
  "history_state men_preferences c =
     (case c of (s, pc) \<Rightarrow>
        (\<forall>m. distinct (proposed s m) \<and>
             set (proposed s m) \<subseteq> set (prefs_of men_preferences m)) \<and>
        (case pc of
           None \<Rightarrow> True
         | Some (man, ws) \<Rightarrow>
             (\<exists>ds. prefs_of men_preferences man = ds @ ws \<and>
                   set ds \<subseteq> set (proposed s man))))"

lemma reach_history_state:
  assumes "reach men_preferences women_preferences c"
  shows "history_state men_preferences c"
  using assms
proof (induction rule: reach.induct)
  case start
  then show ?case by (simp add: history_state_def proposed_initial)
next
  case (pop s man rest man_pref_list)
  have "\<And>m. proposed (s\<lparr>free_men := rest\<rparr>) m = proposed s m"
    by (simp add: proposed_def)
  with pop show ?case
    by (simp add: history_state_def getitem_prefs_of)
next
  case (exhausted s man)
  then show ?case by (simp add: history_state_def)
next
  case (proposal s man woman ws brk s')
  from proposal.IH obtain ds where
    all: "\<And>m. distinct (proposed s m)"
      "\<And>m. set (proposed s m) \<subseteq> set (prefs_of men_preferences m)"
    and ds: "prefs_of men_preferences man = ds @ woman # ws"
      "set ds \<subseteq> set (proposed s man)"
    by (auto simp: history_state_def)
  have next_ds: "prefs_of men_preferences man = (ds @ [woman]) @ ws"
    using ds(1) by simp
  have mem: "woman \<in> set (prefs_of men_preferences man)"
    using ds(1) by simp
  have grow: "proposals s' = AList.update man (proposed s man @ [woman]) (proposals s) \<Longrightarrow>
      woman \<notin> set (proposed s man) \<Longrightarrow>
      (\<forall>m. distinct (proposed s' m) \<and> set (proposed s' m) \<subseteq> set (prefs_of men_preferences m))
      \<and> set (ds @ [woman]) \<subseteq> set (proposed s' man)"
    using all ds(2) mem by (auto simp: proposed_update)
  from proposal.hyps(2) show ?case
  proof (cases rule: proposal_step_cases)
    case skip
    with all ds next_ds show ?thesis
      unfolding history_state_def by (auto intro!: exI [of _ "ds @ [woman]"])
  next
    case engage
    with grow show ?thesis by (simp add: history_state_def)
  next
    case (displace current_man)
    with grow show ?thesis by (simp add: history_state_def)
  next
    case (reject current_man)
    from grow [OF reject(8) reject(2)] next_ds reject(4) show ?thesis
      unfolding history_state_def by (auto intro!: exI [of _ "ds @ [woman]"])
  qed
qed

text \<open>
  An engaged man has proposed to his partner and to every woman he ranks before her.
\<close>

definition proposed_down_to ::
  "('m, 'w list) dict \<Rightarrow> ('m, 'w) state \<Rightarrow> bool" where
  "proposed_down_to men_preferences s =
     (\<forall>(w, m) \<in> set (engaged s).
        w \<in> set (proposed s m) \<and>
        (\<forall>r. rank (prefs_of men_preferences m) r < rank (prefs_of men_preferences m) w
             \<longrightarrow> r \<in> set (proposed s m)))"

lemma reach_proposed_down_to:
  assumes "reach men_preferences women_preferences c"
  shows "proposed_down_to men_preferences (fst c)"
  using assms
proof (induction rule: reach.induct)
  case start
  then show ?case by (simp add: proposed_down_to_def initial_state_def)
next
  case (pop s man rest man_pref_list)
  then show ?case by (simp add: proposed_down_to_def proposed_def)
next
  case (exhausted s man)
  then show ?case by simp
next
  case (proposal s man woman ws brk s')
  from reach_history_state [OF proposal.hyps(1)] obtain ds where
    ds: "prefs_of men_preferences man = ds @ woman # ws" "set ds \<subseteq> set (proposed s man)"
    by (auto simp: history_state_def)
  have old: "\<And>w m r. (w, m) \<in> set (engaged s) \<Longrightarrow> w \<in> set (proposed s m) \<and>
      (rank (prefs_of men_preferences m) r < rank (prefs_of men_preferences m) w
         \<longrightarrow> r \<in> set (proposed s m))"
    using proposal.IH by (auto simp: proposed_down_to_def)
  have new: "\<And>r. rank (prefs_of men_preferences man) r < rank (prefs_of men_preferences man) woman
      \<Longrightarrow> r \<in> set (proposed s man)"
    using ds rank_before [of ds woman ws] by auto
  have grow: "proposals s' = AList.update man (proposed s man @ [woman]) (proposals s) \<Longrightarrow>
      set (engaged s') \<subseteq> insert (woman, man) (set (engaged s)) \<Longrightarrow>
      proposed_down_to men_preferences s'"
    unfolding proposed_down_to_def using old new
    by (auto simp: proposed_update split: if_splits)
  from proposal.hyps(2) show ?case
  proof (cases rule: proposal_step_cases)
    case skip
    with proposal.IH show ?thesis by simp
  next
    case engage
    with grow show ?thesis by auto
  next
    case (displace current_man)
    with grow set_update_subset [of woman man "engaged s"] show ?thesis by auto
  next
    case (reject current_man)
    with grow show ?thesis by auto
  qed
qed


text \<open>
  A woman who has received a proposal is engaged, to a man she ranks no later than any
  man who has proposed to her.
\<close>

definition held_by_no_worse ::
  "('w, 'm list) dict \<Rightarrow> ('m, 'w) state \<Rightarrow> bool" where
  "held_by_no_worse women_preferences s =
     (\<forall>m w. w \<in> set (proposed s m) \<longrightarrow>
        (\<exists>m'. (w, m') \<in> set (engaged s) \<and>
           rank (prefs_of women_preferences w) m' \<le> rank (prefs_of women_preferences w) m))"

lemma reach_held_by_no_worse:
  assumes "reach men_preferences women_preferences c"
    and "distinct (keys men_preferences)"
  shows "held_by_no_worse women_preferences (fst c)"
  using assms
proof (induction rule: reach.induct)
  case start
  then show ?case by (simp add: held_by_no_worse_def proposed_initial)
next
  case (pop s man rest man_pref_list)
  then show ?case by (simp add: held_by_no_worse_def proposed_def)
next
  case (exhausted s man)
  then show ?case by simp
next
  case (proposal s man woman ws brk s')
  have old: "\<And>m w. w \<in> set (proposed s m) \<Longrightarrow>
      \<exists>m'. (w, m') \<in> set (engaged s) \<and>
        rank (prefs_of women_preferences w) m' \<le> rank (prefs_of women_preferences w) m"
    using proposal.IH proposal.prems by (simp add: held_by_no_worse_def)
  have dk: "distinct (map fst (engaged s))"
    using reach_matching_state [OF proposal.hyps(1) proposal.prems]
    by (simp add: matching_state_def)
  from proposal.hyps(2) show ?case
  proof (cases rule: proposal_step_cases)
    case skip
    with proposal.IH proposal.prems show ?thesis by simp
  next
    case engage
    show ?thesis
      unfolding held_by_no_worse_def fst_conv
    proof (intro allI impI)
      fix m w assume "w \<in> set (proposed s' m)"
      then consider "m = man" "w = woman" | "w \<in> set (proposed s m)"
        using engage(5) by (auto simp: proposed_update split: if_splits)
      then show "\<exists>m'. (w, m') \<in> set (engaged s') \<and>
          rank (prefs_of women_preferences w) m' \<le> rank (prefs_of women_preferences w) m"
      proof cases
        case 1
        with engage(6) show ?thesis by auto
      next
        case 2
        from old [OF this] engage(6) show ?thesis by auto
      qed
    qed
  next
    case (displace current_man)
    have se: "set (engaged s') = insert (woman, man) (set (engaged s) - {(woman, current_man)})"
      using displace(9) set_update_present [OF dk displace(3)] by simp
    show ?thesis
      unfolding held_by_no_worse_def fst_conv
    proof (intro allI impI)
      fix m w assume "w \<in> set (proposed s' m)"
      then consider "m = man" "w = woman" | "w \<in> set (proposed s m)"
        using displace(8) by (auto simp: proposed_update split: if_splits)
      then show "\<exists>m'. (w, m') \<in> set (engaged s') \<and>
          rank (prefs_of women_preferences w) m' \<le> rank (prefs_of women_preferences w) m"
      proof cases
        case 1
        with se show ?thesis by auto
      next
        case 2
        from old [OF this] obtain m' where m': "(w, m') \<in> set (engaged s)"
          "rank (prefs_of women_preferences w) m' \<le> rank (prefs_of women_preferences w) m"
          by blast
        show ?thesis
        proof (cases "(w, m') = (woman, current_man)")
          case True
          with m'(2) displace(7) have
            "rank (prefs_of women_preferences w) man \<le> rank (prefs_of women_preferences w) m"
            by simp
          moreover from True se have "(w, man) \<in> set (engaged s')" by simp
          ultimately show ?thesis by blast
        next
          case False
          with m'(1) se have "(w, m') \<in> set (engaged s')" by simp
          with m'(2) show ?thesis by blast
        qed
      qed
    qed
  next
    case (reject current_man)
    have cm: "(woman, current_man) \<in> set (engaged s)"
      using reject(3) by (rule map_of_SomeD)
    show ?thesis
      unfolding held_by_no_worse_def fst_conv
    proof (intro allI impI)
      fix m w assume "w \<in> set (proposed s' m)"
      then consider "m = man" "w = woman" | "w \<in> set (proposed s m)"
        using reject(8) by (auto simp: proposed_update split: if_splits)
      then show "\<exists>m'. (w, m') \<in> set (engaged s') \<and>
          rank (prefs_of women_preferences w) m' \<le> rank (prefs_of women_preferences w) m"
      proof cases
        case 1
        with cm reject(7,9) show ?thesis by auto
      next
        case 2
        from old [OF this] reject(9) show ?thesis by auto
      qed
    qed
  qed
qed

text \<open>
  A proposer who is neither queued, nor engaged, nor running his \<open>for\<close> loop has proposed
  to every woman of his list.
\<close>

definition idle_exhausted ::
  "('m, 'w list) dict \<Rightarrow> ('m, 'w) state \<times> ('m \<times> 'w list) option \<Rightarrow> bool" where
  "idle_exhausted men_preferences c =
     (case c of (s, pc) \<Rightarrow>
        (\<forall>m \<in> set (keys men_preferences).
           m \<notin> set (free_men s) \<and> m \<notin> snd ` set (engaged s) \<and>
           (\<forall>ws. pc \<noteq> Some (m, ws)) \<longrightarrow>
           set (prefs_of men_preferences m) \<subseteq> set (proposed s m)))"

lemma reach_idle_exhausted:
  assumes "reach men_preferences women_preferences c"
    and "distinct (keys men_preferences)"
  shows "idle_exhausted men_preferences c"
  using assms
proof (induction rule: reach.induct)
  case start
  then show ?case by (simp add: idle_exhausted_def initial_state_def keys_def)
next
  case (pop s man rest man_pref_list)
  then show ?case by (auto simp: idle_exhausted_def proposed_def)
next
  case (exhausted s man)
  from reach_history_state [OF exhausted.hyps]
  have "set (prefs_of men_preferences man) \<subseteq> set (proposed s man)"
    by (auto simp: history_state_def)
  with exhausted.IH exhausted.prems show ?case
    by (auto simp: idle_exhausted_def)
next
  case (proposal s man woman ws brk s')
  have old: "\<And>m. m \<in> set (keys men_preferences) \<Longrightarrow> m \<notin> set (free_men s) \<Longrightarrow>
      m \<notin> snd ` set (engaged s) \<Longrightarrow> m \<noteq> man \<Longrightarrow>
      set (prefs_of men_preferences m) \<subseteq> set (proposed s m)"
    using proposal.IH proposal.prems by (auto simp: idle_exhausted_def)
  have ms: "distinct (map fst (engaged s))" "distinct (map snd (engaged s))"
    using reach_matching_state [OF proposal.hyps(1) proposal.prems]
    by (simp_all add: matching_state_def)
  from proposal.hyps(2) show ?case
  proof (cases rule: proposal_step_cases)
    case skip
    with old show ?thesis by (auto simp: idle_exhausted_def)
  next
    case engage
    have "\<And>m. m \<noteq> man \<Longrightarrow> proposed s' m = proposed s m"
      using engage(5) by (simp add: proposed_update)
    with old engage(4,6,7) show ?thesis
      by (auto simp: idle_exhausted_def image_iff)
  next
    case (displace current_man)
    have se: "set (engaged s') = insert (woman, man) (set (engaged s) - {(woman, current_man)})"
      using displace(9) set_update_present [OF ms(1) displace(3)] by simp
    have cm: "(woman, current_man) \<in> set (engaged s)"
      using displace(3) by (rule map_of_SomeD)
    have uniq: "\<And>w. (w, current_man) \<in> set (engaged s) \<Longrightarrow> w = woman"
      using ms(2) cm by (metis eq_key_imp_eq_value distinct_map inj_on_def snd_conv prod.inject)
    have pr: "\<And>m. m \<noteq> man \<Longrightarrow> proposed s' m = proposed s m"
      using displace(8) by (simp add: proposed_update)
    show ?thesis
      unfolding idle_exhausted_def
    proof (clarsimp simp: displace(4))
      fix m x
      assume m: "m \<in> set (keys men_preferences)" "m \<notin> set (free_men s')"
        "m \<notin> snd ` set (engaged s')" and x: "x \<in> set (prefs_of men_preferences m)"
      from m(2) displace(10) have m1: "m \<notin> set (free_men s)" "m \<noteq> current_man" by auto
      from m(3) se have m2: "m \<noteq> man" by (auto simp: image_iff)
      have m3: "m \<notin> snd ` set (engaged s)"
      proof
        assume "m \<in> snd ` set (engaged s)"
        then obtain w where w: "(w, m) \<in> set (engaged s)" by auto
        with m1(2) have "(w, m) \<noteq> (woman, current_man)" by simp
        with w se have "(w, m) \<in> set (engaged s')" by simp
        with m(3) show False by (auto simp: image_iff)
      qed
      from old [OF m(1) m1(1) m3 m2] x pr [OF m2] show "x \<in> set (proposed s' m)" by auto
    qed
  next
    case (reject current_man)
    have "\<And>m. m \<noteq> man \<Longrightarrow> proposed s' m = proposed s m"
      using reject(8) by (simp add: proposed_update)
    with old reject(4,9,10) show ?thesis
      unfolding idle_exhausted_def by clarsimp (metis subsetD)
  qed
qed

subsection \<open>The loops stay within \<open>reach\<close>\<close>

lemma for_woman_reach:
  assumes "reach men_preferences women_preferences (s, Some (man, ws))"
    and "for_woman women_preferences man ws s = Inr s'"
  shows "reach men_preferences women_preferences (s', None)"
  using assms
proof (induction ws arbitrary: s)
  case Nil
  then show ?case by (auto intro: reach.exhausted)
next
  case (Cons woman rest)
  from Cons.prems(2) obtain brk s1
    where step: "proposal_step women_preferences man woman s = Inr (brk, s1)"
      and rest: "if brk then s' = s1 else for_woman women_preferences man rest s1 = Inr s'"
    by (auto split: sum.splits if_splits)
  from reach.proposal [OF Cons.prems(1) step]
  have r: "reach men_preferences women_preferences (s1, if brk then None else Some (man, rest))" .
  show ?case
  proof (cases brk)
    case True
    with r rest show ?thesis by simp
  next
    case False
    with r rest Cons.IH show ?thesis by simp
  qed
qed

lemma while_body_reach:
  assumes "reach men_preferences women_preferences (s, None)"
    and "while_body men_preferences women_preferences s = Inr s'"
  shows "reach men_preferences women_preferences (s', None)"
proof (cases "free_men s")
  case Nil
  with assms show ?thesis by (simp add: while_body_def)
next
  case (Cons man rest)
  with assms(2) obtain l where l: "getitem men_preferences man = Inr l"
    and fw: "for_woman women_preferences man l (s\<lparr>free_men := rest\<rparr>) = Inr s'"
    by (auto simp: while_body_def split: sum.splits)
  from reach.pop [OF assms(1) Cons l] fw show ?thesis
    by (rule for_woman_reach)
qed

lemma while_free_men_reach:
  assumes "reach men_preferences women_preferences (s, None)"
    and "while_free_men men_preferences women_preferences s = Inr s'"
  shows "reach men_preferences women_preferences (s', None) \<and> free_men s' = []"
  using assms
proof (induction men_preferences women_preferences s rule: while_free_men.induct)
  case (1 men_preferences women_preferences s)
  show ?case
  proof (cases "free_men s = []")
    case True
    with "1.prems" show ?thesis by (simp add: while_free_men.simps)
  next
    case False
    with "1.prems"(2) obtain s1 where
      b: "while_body men_preferences women_preferences s = Inr s1"
      and w: "while_free_men men_preferences women_preferences s1 = Inr s'"
      by (subst (asm) while_free_men.simps) (auto split: sum.splits)
    from "1.IH" [OF False b while_body_reach [OF "1.prems"(1) b] w] show ?thesis .
  qed
qed

lemma run_stable_marriage_reach:
  assumes "run_stable_marriage men_preferences women_preferences = Inr s"
  shows "reach men_preferences women_preferences (s, None) \<and> free_men s = []"
  using while_free_men_reach [OF reach.start] assms
  by (simp add: run_stable_marriage_def)


subsection \<open>Inputs on which no lookup fails\<close>

text \<open>
  \<open>valid_input\<close>: both arguments are dictionaries, every proposer's list is a permutation
  of the receivers (the keys of \<open>women_preferences\<close>) and every receiver's list a permutation
  of the proposers.  \<open>lookups_defined\<close> asks less: a proposer's list holds receivers only, but
  may leave some out or repeat them, and a receiver's list holds every proposer.
\<close>

definition lookups_defined :: "('m, 'w list) dict \<Rightarrow> ('w, 'm list) dict \<Rightarrow> bool" where
  "lookups_defined men_preferences women_preferences =
     (distinct (keys men_preferences) \<and>
      (\<forall>(m, l) \<in> set men_preferences. set l \<subseteq> set (keys women_preferences)) \<and>
      (\<forall>(w, l) \<in> set women_preferences. set (keys men_preferences) \<subseteq> set l))"

definition valid_input :: "('m, 'w list) dict \<Rightarrow> ('w, 'm list) dict \<Rightarrow> bool" where
  "valid_input men_preferences women_preferences =
     (distinct (keys men_preferences) \<and> distinct (keys women_preferences) \<and>
      (\<forall>(m, l) \<in> set men_preferences. distinct l \<and> set l = set (keys women_preferences)) \<and>
      (\<forall>(w, l) \<in> set women_preferences. distinct l \<and> set l = set (keys men_preferences)))"

lemma valid_input_lookups_defined:
  "valid_input men_preferences women_preferences \<Longrightarrow>
     lookups_defined men_preferences women_preferences"
  by (auto simp: valid_input_def lookups_defined_def)

lemma key_lookup: "k \<in> set (keys d) \<Longrightarrow> \<exists>v. map_of d k = Some v \<and> (k, v) \<in> set d"
  by (cases "map_of d k") (auto simp: keys_def map_of_eq_None_iff dest: map_of_SomeD)

lemma proposal_step_defined:
  assumes r: "reach men_preferences women_preferences (s, Some (man, woman # ws))"
    and ok: "lookups_defined men_preferences women_preferences"
  shows "\<exists>brk s'. proposal_step women_preferences man woman s = Inr (brk, s')"
proof -
  from ok have dk: "distinct (keys men_preferences)" by (simp add: lookups_defined_def)
  from reach_matching_state [OF r dk]
  have man: "man \<in> set (keys men_preferences)"
    and ran: "snd ` set (engaged s) \<subseteq> set (keys men_preferences)"
    by (simp_all add: matching_state_def)
  from reach_proposals_keys [OF r] man have "man \<in> set (keys (proposals s))" by simp
  then obtain ps where ps: "map_of (proposals s) man = Some ps"
    using key_lookup by fastforce
  from man obtain l where l: "map_of men_preferences man = Some l" "(man, l) \<in> set men_preferences"
    using key_lookup by fastforce
  from reach_history_state [OF r] l(1) have "woman \<in> set l"
    by (auto simp: history_state_def prefs_of_def)
  with ok l(2) have "woman \<in> set (keys women_preferences)"
    by (auto simp: lookups_defined_def)
  then obtain wl where wl: "map_of women_preferences woman = Some wl"
    "(woman, wl) \<in> set women_preferences"
    using key_lookup by fastforce
  with ok have sub: "set (keys men_preferences) \<subseteq> set wl"
    by (auto simp: lookups_defined_def)
  have i: "list_index wl man = Inr (rank wl man)"
    using man sub by (intro list_index_rank) auto
  show ?thesis
  proof (cases "map_of (engaged s) woman")
    case None
    with ps show ?thesis
      by (auto simp: proposal_step_def getitem_def Let_def)
  next
    case (Some cm)
    then have "cm \<in> snd ` set (engaged s)"
      by (auto dest!: map_of_SomeD intro: rev_image_eqI)
    with ran sub have "list_index wl cm = Inr (rank wl cm)"
      by (intro list_index_rank) auto
    with ps wl(1) i Some show ?thesis
      by (auto simp: proposal_step_def getitem_def Let_def)
  qed
qed

lemma for_woman_defined:
  assumes "reach men_preferences women_preferences (s, Some (man, ws))"
    and "lookups_defined men_preferences women_preferences"
  shows "\<exists>s'. for_woman women_preferences man ws s = Inr s'"
  using assms
proof (induction ws arbitrary: s)
  case Nil
  then show ?case by simp
next
  case (Cons woman rest)
  from proposal_step_defined [OF Cons.prems] obtain brk s1
    where step: "proposal_step women_preferences man woman s = Inr (brk, s1)" by blast
  show ?case
  proof (cases brk)
    case True
    with step show ?thesis by simp
  next
    case False
    with reach.proposal [OF Cons.prems(1) step]
    have "reach men_preferences women_preferences (s1, Some (man, rest))" by simp
    from Cons.IH [OF this Cons.prems(2)] step False show ?thesis by simp
  qed
qed

lemma while_body_defined:
  assumes r: "reach men_preferences women_preferences (s, None)"
    and ok: "lookups_defined men_preferences women_preferences"
  shows "\<exists>s'. while_body men_preferences women_preferences s = Inr s'"
proof (cases "free_men s")
  case Nil
  then show ?thesis by (simp add: while_body_def)
next
  case (Cons man rest)
  from ok have dk: "distinct (keys men_preferences)" by (simp add: lookups_defined_def)
  from reach_matching_state [OF r dk] Cons have "man \<in> set (keys men_preferences)"
    by (simp add: matching_state_def)
  then obtain l where l: "map_of men_preferences man = Some l"
    using key_lookup by fastforce
  then have g: "getitem men_preferences man = Inr l" by (simp add: getitem_def)
  from for_woman_defined [OF reach.pop [OF r Cons g] ok] Cons g show ?thesis
    by (simp add: while_body_def)
qed

lemma while_free_men_defined:
  assumes "reach men_preferences women_preferences (s, None)"
    and "lookups_defined men_preferences women_preferences"
  shows "\<exists>s'. while_free_men men_preferences women_preferences s = Inr s'"
  using assms
proof (induction men_preferences women_preferences s rule: while_free_men.induct)
  case (1 men_preferences women_preferences s)
  show ?case
  proof (cases "free_men s = []")
    case True
    then show ?thesis by (simp add: while_free_men.simps)
  next
    case False
    from while_body_defined [OF "1.prems"] obtain s1
      where b: "while_body men_preferences women_preferences s = Inr s1" by blast
    from "1.IH" [OF False b while_body_reach [OF "1.prems"(1) b] "1.prems"(2)]
    obtain s' where "while_free_men men_preferences women_preferences s1 = Inr s'" by blast
    with False b show ?thesis
      by (subst while_free_men.simps) simp
  qed
qed

lemma run_stable_marriage_defined:
  assumes "lookups_defined men_preferences women_preferences"
  shows "\<exists>s. run_stable_marriage men_preferences women_preferences = Inr s"
  unfolding run_stable_marriage_def
  by (rule while_free_men_defined [OF reach.start assms])

subsection \<open>Blocking pairs\<close>

text \<open>
  \<open>partner e p\<close> is the receiver matched to proposer \<open>p\<close> in \<open>e\<close>, and \<open>map_of e r\<close> the
  proposer matched to receiver \<open>r\<close>.  \<open>prefers l x y\<close>: the owner of list \<open>l\<close> has no partner,
  or ranks \<open>x\<close> before the partner \<open>y\<close>.  A proposer and a receiver who are not matched to
  each other block \<open>e\<close> when each prefers the other in this sense; \<open>blocking_pairs\<close> lists
  all of them.
\<close>

definition partner :: "('w, 'm) dict \<Rightarrow> 'm \<Rightarrow> 'w option" where
  "partner e man = map_of (map (\<lambda>(w, m). (m, w)) e) man"

fun prefers :: "'a list \<Rightarrow> 'a \<Rightarrow> 'a option \<Rightarrow> bool" where
  "prefers l x None = True"
| "prefers l x (Some y) = (rank l x < rank l y)"

definition blocking_pair ::
  "('m, 'w list) dict \<Rightarrow> ('w, 'm list) dict \<Rightarrow> ('w, 'm) dict \<Rightarrow> 'm \<Rightarrow> 'w \<Rightarrow> bool" where
  "blocking_pair men_preferences women_preferences e p r =
     (map_of e r \<noteq> Some p \<and>
      prefers (prefs_of men_preferences p) r (partner e p) \<and>
      prefers (prefs_of women_preferences r) p (map_of e r))"

definition blocking_pairs ::
  "('m, 'w list) dict \<Rightarrow> ('w, 'm list) dict \<Rightarrow> ('w, 'm) dict \<Rightarrow> ('m \<times> 'w) list" where
  "blocking_pairs men_preferences women_preferences e =
     [(p, r). p \<leftarrow> keys men_preferences, r \<leftarrow> keys women_preferences,
              blocking_pair men_preferences women_preferences e p r]"






lemma sum_list_le_times:
  fixes f :: "'a \<Rightarrow> nat"
  assumes "\<forall>x \<in> set xs. f x \<le> b"
  shows "sum_list (map f xs) \<le> length xs * b"
  using assms by (induction xs) auto

lemma proposals_entry:
  assumes "reach men_preferences women_preferences c" and "distinct (keys men_preferences)"
    and "(man, ps) \<in> set (proposals (fst c))"
  shows "proposed (fst c) man = ps \<and> man \<in> set (keys men_preferences)"
proof -
  from reach_proposals_keys [OF assms(1)] assms(2)
  have k: "map fst (proposals (fst c)) = map fst men_preferences"
    and d: "distinct (map fst (proposals (fst c)))"
    by (simp_all add: keys_def)
  from d assms(3) have "map_of (proposals (fst c)) man = Some ps" by simp
  moreover from assms(3) have "man \<in> set (map fst (proposals (fst c)))"
    by (auto intro: rev_image_eqI)
  ultimately show ?thesis using k by (simp add: proposed_def keys_def)
qed

lemma proposals_entry_bound:
  assumes r: "reach men_preferences women_preferences c"
    and ok: "lookups_defined men_preferences women_preferences"
    and e: "(man, ps) \<in> set (proposals (fst c))"
  shows "distinct ps \<and> length ps \<le> length women_preferences"
proof -
  from ok have dk: "distinct (keys men_preferences)" by (simp add: lookups_defined_def)
  from proposals_entry [OF r dk e]
  have p: "proposed (fst c) man = ps" and m: "man \<in> set (keys men_preferences)" by simp_all
  from reach_history_state [OF r] p
  have d: "distinct ps" and sub: "set ps \<subseteq> set (prefs_of men_preferences man)"
    by (auto simp: history_state_def split: prod.splits)
  from m obtain l where "map_of men_preferences man = Some l" "(man, l) \<in> set men_preferences"
    using key_lookup by fastforce
  with ok have "set (prefs_of men_preferences man) \<subseteq> set (keys women_preferences)"
    by (auto simp: lookups_defined_def prefs_of_def)
  with sub have "card (set ps) \<le> card (set (keys women_preferences))"
    by (intro card_mono) auto
  also have "\<dots> \<le> length (keys women_preferences)" by (rule card_length)
  finally show ?thesis using d by (simp add: distinct_card keys_def)
qed

lemma engaged_within_lists:
  assumes r: "reach men_preferences women_preferences c"
    and e: "(w, m) \<in> set (engaged (fst c))"
  shows "w \<in> set (prefs_of men_preferences m)"
proof -
  from reach_proposed_down_to [OF r] e have "w \<in> set (proposed (fst c) m)"
    by (auto simp: proposed_down_to_def)
  with reach_history_state [OF r] show ?thesis
    by (auto simp: history_state_def split: prod.splits)
qed

lemma final_all_matched_or_all_engaged:
  assumes r: "reach men_preferences women_preferences (s, None)" and f: "free_men s = []"
    and v: "valid_input men_preferences women_preferences"
  shows "set (keys men_preferences) \<subseteq> snd ` set (engaged s) \<or>
         set (keys women_preferences) \<subseteq> fst ` set (engaged s)"
proof (rule ccontr)
  assume "\<not> ?thesis"
  then obtain p w where p: "p \<in> set (keys men_preferences)" "p \<notin> snd ` set (engaged s)"
    and w: "w \<in> set (keys women_preferences)" "w \<notin> fst ` set (engaged s)"
    by auto
  from v have dk: "distinct (keys men_preferences)" by (simp add: valid_input_def)
  from p(1) obtain l where "map_of men_preferences p = Some l" "(p, l) \<in> set men_preferences"
    using key_lookup by fastforce
  with v w(1) have "w \<in> set (prefs_of men_preferences p)"
    by (auto simp: valid_input_def prefs_of_def)
  with reach_idle_exhausted [OF r dk] p f have "w \<in> set (proposed s p)"
    by (auto simp: idle_exhausted_def)
  with reach_held_by_no_worse [OF r dk] obtain m' where "(w, m') \<in> set (engaged s)"
    by (auto simp: held_by_no_worse_def)
  with w(2) show False by (auto simp: image_iff)
qed

section \<open>The example of the script\<close>

definition example_men :: "(string, string list) dict" where
  "example_men =
     [(''A'', [''X'', ''Y'', ''Z'']), (''B'', [''Y'', ''X'', ''Z'']), (''C'', [''Y'', ''Z'', ''X''])]"

definition example_women :: "(string, string list) dict" where
  "example_women =
     [(''X'', [''B'', ''A'', ''C'']), (''Y'', [''A'', ''B'', ''C'']), (''Z'', [''A'', ''B'', ''C''])]"

lemma example_valid: "valid_input example_men example_women"
  by code_simp

lemma example_run:
  "run_stable_marriage example_men example_women =
     Inr \<lparr>free_men = [],
          engaged = [(''X'', ''A''), (''Y'', ''B''), (''Z'', ''C'')],
          proposals = [(''A'', [''X'']), (''B'', [''Y'']), (''C'', [''Y'', ''Z''])]\<rparr>"
  by code_simp

text \<open>
  Two more inputs: one in which proposer \<open>A\<close> leaves receiver \<open>Z\<close> out of his list, and one
  with three proposers and two receivers.
\<close>

definition omitting_men :: "(string, string list) dict" where
  "omitting_men =
     [(''A'', [''X'', ''Y'']), (''B'', [''Y'', ''X'', ''Z'']), (''C'', [''Y'', ''Z'', ''X''])]"

definition three_men :: "(string, string list) dict" where
  "three_men = [(''A'', [''X'', ''Y'']), (''B'', [''Y'', ''X'']), (''C'', [''Y'', ''X''])]"

definition two_women :: "(string, string list) dict" where
  "two_women = [(''X'', [''B'', ''A'', ''C'']), (''Y'', [''A'', ''B'', ''C''])]"

lemma omitting_lookups_defined: "lookups_defined omitting_men example_women"
  by code_simp

lemma three_two_valid: "valid_input three_men two_women"
  by code_simp

section \<open>Claims about \<open>stable_marriage\<close>\<close>



text \<open>
  C3.  On such input \<open>stable_marriage\<close> returns (the loop is a total function, and no
  exception ends it), the lengths of the final \<open>proposals\<close> lists add up to at most
  \<open>|P| * |R|\<close>, and in every state of a run each proposer's list of proposals is free of
  repetitions and no longer than \<open>|R|\<close>.
\<close>

theorem stable_marriage_proposal_bound:
  assumes "valid_input men_preferences women_preferences"
  shows "\<exists>s. run_stable_marriage men_preferences women_preferences = Inr s \<and>
           stable_marriage men_preferences women_preferences = Inr (engaged s) \<and>
           sum_list (map (\<lambda>(man, ps). length ps) (proposals s))
             \<le> length men_preferences * length women_preferences \<and>
           (\<forall>c. reach men_preferences women_preferences c \<longrightarrow>
              (\<forall>(man, ps) \<in> set (proposals (fst c)).
                 distinct ps \<and> length ps \<le> length women_preferences))"
proof -
  have ok: "lookups_defined men_preferences women_preferences"
    using assms by (rule valid_input_lookups_defined)
  from run_stable_marriage_defined [OF ok]
  obtain s where s: "run_stable_marriage men_preferences women_preferences = Inr s" by blast
  from run_stable_marriage_reach [OF s]
  have r: "reach men_preferences women_preferences (s, None)" by simp
  have e: "stable_marriage men_preferences women_preferences = Inr (engaged s)"
    using s by (simp add: stable_marriage_def)
  have each: "\<forall>x \<in> set (proposals s). (case x of (man, ps) \<Rightarrow> length ps)
      \<le> length women_preferences"
    using proposals_entry_bound [OF r ok] by auto
  have "length (proposals s) = length men_preferences"
    using reach_proposals_keys [OF r] by (auto simp: keys_def dest: map_eq_imp_length_eq)
  with sum_list_le_times [OF each]
  have total: "sum_list (map (\<lambda>(man, ps). length ps) (proposals s))
      \<le> length men_preferences * length women_preferences" by simp
  have "\<forall>c. reach men_preferences women_preferences c \<longrightarrow>
      (\<forall>(man, ps) \<in> set (proposals (fst c)). distinct ps \<and> length ps \<le> length women_preferences)"
    using proposals_entry_bound [OF _ ok] by blast
  with s e total show ?thesis by blast
qed

theorem stable_marriage_proposal_bound_witness:
  "valid_input example_men example_women \<and>
   (\<exists>s. run_stable_marriage example_men example_women = Inr s \<and>
      stable_marriage example_men example_women = Inr (engaged s) \<and>
      sum_list (map (\<lambda>(man, ps). length ps) (proposals s))
        \<le> length example_men * length example_women \<and>
      (\<forall>c. reach example_men example_women c \<longrightarrow>
         (\<forall>(man, ps) \<in> set (proposals (fst c)).
            distinct ps \<and> length ps \<le> length example_women)))"
  using stable_marriage_proposal_bound [OF example_valid] example_valid by simp

text \<open>
  C4.  In every state a run passes through, after each single proposal as well as at the
  end, \<open>engaged\<close> has no receiver twice among its keys and no proposer twice among its
  values.  Only the keys of \<open>men_preferences\<close> need be distinct, as those of a dictionary are.
\<close>

theorem engaged_injective_throughout:
  assumes "reach men_preferences women_preferences (s, pc)"
    and "distinct (keys men_preferences)"
  shows "distinct (map fst (engaged s)) \<and> distinct (map snd (engaged s))"
  using reach_matching_state [OF assms] by (simp add: matching_state_def)

theorem engaged_injective_throughout_witness:
  "reach example_men example_women
     (\<lparr>free_men = [],
       engaged = [(''X'', ''A''), (''Y'', ''B''), (''Z'', ''C'')],
       proposals = [(''A'', [''X'']), (''B'', [''Y'']), (''C'', [''Y'', ''Z''])]\<rparr>, None) \<and>
   distinct (keys example_men) \<and>
   distinct (map fst [(''X'', ''A''), (''Y'', ''B''), (''Z'', ''C'')]) \<and>
   distinct (map snd [(''X'', ''A''), (''Y'', ''B''), (''Z'', ''C'')])"
proof -
  let ?s = "\<lparr>free_men = [],
       engaged = [(''X'', ''A''), (''Y'', ''B''), (''Z'', ''C'')],
       proposals = [(''A'', [''X'']), (''B'', [''Y'']), (''C'', [''Y'', ''Z''])]\<rparr>"
  have r: "reach example_men example_women (?s, None)"
    using run_stable_marriage_reach [OF example_run] by simp
  have d: "distinct (keys example_men)"
    by (simp add: keys_def example_men_def)
  from engaged_injective_throughout [OF r d] r d show ?thesis by simp
qed

text \<open>
  C5.  On the example of the script \<open>stable_marriage\<close> returns \<open>{X: A, Y: B, Z: C}\<close>, in this
  order of insertion, and that matching has no blocking pair.
\<close>

theorem stable_marriage_example:
  "stable_marriage example_men example_women = Inr [(''X'', ''A''), (''Y'', ''B''), (''Z'', ''C'')] \<and>
   blocking_pairs example_men example_women [(''X'', ''A''), (''Y'', ''B''), (''Z'', ''C'')] = []"
  by code_simp

text \<open>
  C6.  The claim asks for a \<open>MalformedPreferenceError\<close> before any proposal when a proposer's
  list leaves a receiver out.  \<open>stable_marriage\<close> checks nothing: on such an input it runs
  the loop, records proposals and returns a matching.
\<close>

theorem stable_marriage_omitted_receiver_counterexample:
  "\<not> valid_input omitting_men example_women \<and>
   run_stable_marriage omitting_men example_women =
     Inr \<lparr>free_men = [],
          engaged = [(''X'', ''A''), (''Y'', ''B''), (''Z'', ''C'')],
          proposals = [(''A'', [''X'']), (''B'', [''Y'']), (''C'', [''Y'', ''Z''])]\<rparr> \<and>
   stable_marriage omitting_men example_women =
     Inr [(''X'', ''A''), (''Y'', ''B''), (''Z'', ''C'')]"
  by code_simp

text \<open>
  C6, as the code has it.  When every entry of a proposer's list is a receiver and every
  receiver's list holds all proposers (a proposer's list may leave receivers out),
  \<open>stable_marriage\<close> raises nothing, and in the state \<open>s\<close> in which the loop ends:
  \<^item> the value returned is \<open>engaged\<close>, without a repeated receiver or proposer;
  \<^item> each pair of it joins a proposer with a receiver of his own list, and that proposal
    is recorded in his \<open>proposals\<close> list;
  \<^item> the \<open>proposals\<close> list of every proposer is free of repetitions and taken from his
    list, and a proposer without a partner has proposed to every receiver of his list;
  \<^item> every receiver to whom a proposal is recorded is engaged.
\<close>

theorem stable_marriage_no_validation:
  assumes "lookups_defined men_preferences women_preferences"
  shows "\<exists>s. run_stable_marriage men_preferences women_preferences = Inr s \<and>
           stable_marriage men_preferences women_preferences = Inr (engaged s) \<and>
           distinct (map fst (engaged s)) \<and> distinct (map snd (engaged s)) \<and>
           (\<forall>(w, m) \<in> set (engaged s).
              w \<in> set (prefs_of men_preferences m) \<and> w \<in> set (proposed s m)) \<and>
           (\<forall>m \<in> set (keys men_preferences).
              distinct (proposed s m) \<and>
              set (proposed s m) \<subseteq> set (prefs_of men_preferences m) \<and>
              (m \<in> snd ` set (engaged s) \<or>
               set (prefs_of men_preferences m) \<subseteq> set (proposed s m))) \<and>
           (\<forall>m w. w \<in> set (proposed s m) \<longrightarrow> w \<in> fst ` set (engaged s))"
proof -
  from run_stable_marriage_defined [OF assms]
  obtain s where s: "run_stable_marriage men_preferences women_preferences = Inr s" by blast
  from run_stable_marriage_reach [OF s]
  have r: "reach men_preferences women_preferences (s, None)" and f: "free_men s = []"
    by simp_all
  from assms have dk: "distinct (keys men_preferences)" by (simp add: lookups_defined_def)
  have res: "stable_marriage men_preferences women_preferences = Inr (engaged s)"
    using s by (simp add: stable_marriage_def)
  have inj: "distinct (map fst (engaged s))" "distinct (map snd (engaged s))"
    using reach_matching_state [OF r dk] by (simp_all add: matching_state_def)
  have pairs: "\<forall>(w, m) \<in> set (engaged s).
      w \<in> set (prefs_of men_preferences m) \<and> w \<in> set (proposed s m)"
    using engaged_within_lists [OF r] reach_proposed_down_to [OF r]
    by (auto simp: proposed_down_to_def)
  have hist: "\<And>m. distinct (proposed s m) \<and>
      set (proposed s m) \<subseteq> set (prefs_of men_preferences m)"
    using reach_history_state [OF r] by (simp add: history_state_def)
  have idle: "\<And>m. m \<in> set (keys men_preferences) \<Longrightarrow> m \<notin> snd ` set (engaged s) \<Longrightarrow>
      set (prefs_of men_preferences m) \<subseteq> set (proposed s m)"
    using reach_idle_exhausted [OF r dk] f by (simp add: idle_exhausted_def)
  have men: "\<forall>m \<in> set (keys men_preferences).
      distinct (proposed s m) \<and>
      set (proposed s m) \<subseteq> set (prefs_of men_preferences m) \<and>
      (m \<in> snd ` set (engaged s) \<or> set (prefs_of men_preferences m) \<subseteq> set (proposed s m))"
    using hist idle by blast
  have held: "\<forall>m w. w \<in> set (proposed s m) \<longrightarrow> w \<in> fst ` set (engaged s)"
  proof (intro allI impI)
    fix m w assume "w \<in> set (proposed s m)"
    with reach_held_by_no_worse [OF r dk] obtain m' where "(w, m') \<in> set (engaged s)"
      by (auto simp: held_by_no_worse_def)
    then show "w \<in> fst ` set (engaged s)" by (auto intro: rev_image_eqI)
  qed
  from s res inj pairs men held show ?thesis by blast
qed

theorem stable_marriage_no_validation_witness:
  "lookups_defined omitting_men example_women \<and>
   (\<exists>s. run_stable_marriage omitting_men example_women = Inr s \<and>
      stable_marriage omitting_men example_women = Inr (engaged s) \<and>
      distinct (map fst (engaged s)) \<and> distinct (map snd (engaged s)) \<and>
      (\<forall>(w, m) \<in> set (engaged s).
         w \<in> set (prefs_of omitting_men m) \<and> w \<in> set (proposed s m)) \<and>
      (\<forall>m \<in> set (keys omitting_men).
         distinct (proposed s m) \<and>
         set (proposed s m) \<subseteq> set (prefs_of omitting_men m) \<and>
         (m \<in> snd ` set (engaged s) \<or>
          set (prefs_of omitting_men m) \<subseteq> set (proposed s m))) \<and>
      (\<forall>m w. w \<in> set (proposed s m) \<longrightarrow> w \<in> fst ` set (engaged s)))"
  using stable_marriage_no_validation [OF omitting_lookups_defined] omitting_lookups_defined
  by simp

text \<open>
  C8.  The claim has the engine return an unmatched set next to the matching.
  \<open>stable_marriage\<close> returns the dictionary \<open>engaged\<close> and nothing else: with three
  proposers and two receivers the value returned is the two pairs, and the proposer left
  over, \<open>C\<close>, occurs nowhere in it.
\<close>

theorem stable_marriage_unequal_counterexample:
  "valid_input three_men two_women \<and>
   stable_marriage three_men two_women = Inr [(''X'', ''A''), (''Y'', ''B'')] \<and>
   ''C'' \<notin> fst ` set [(''X'', ''A''), (''Y'', ''B'')] \<and>
   ''C'' \<notin> snd ` set [(''X'', ''A''), (''Y'', ''B'')]"
  by code_simp

text \<open>
  C8, as the code has it.  On full lists, whatever the sizes of the two sides,
  \<open>stable_marriage\<close> raises nothing and returns a matching of \<open>min |P| |R|\<close> pairs; the
  proposers absent from it number \<open>|P|\<close> minus its length.  With \<open>|P| = 3\<close> and
  \<open>|R| = 2\<close> that is two pairs and one proposer left over.
\<close>

theorem stable_marriage_partial_matching:
  assumes "valid_input men_preferences women_preferences"
  shows "\<exists>e. stable_marriage men_preferences women_preferences = Inr e \<and>
           length e = min (length men_preferences) (length women_preferences) \<and>
           card (set (keys men_preferences) - snd ` set e) = length men_preferences - length e"
proof -
  have ok: "lookups_defined men_preferences women_preferences"
    using assms by (rule valid_input_lookups_defined)
  from run_stable_marriage_defined [OF ok]
  obtain s where s: "run_stable_marriage men_preferences women_preferences = Inr s" by blast
  from run_stable_marriage_reach [OF s]
  have r: "reach men_preferences women_preferences (s, None)" and f: "free_men s = []"
    by simp_all
  from assms have dk: "distinct (keys men_preferences)" and dw: "distinct (keys women_preferences)"
    by (simp_all add: valid_input_def)
  let ?e = "engaged s"
  from reach_matching_state [OF r dk]
  have d1: "distinct (map fst ?e)" and d2: "distinct (map snd ?e)"
    and ran: "snd ` set ?e \<subseteq> set (keys men_preferences)"
    by (simp_all add: matching_state_def)
  have dom: "fst ` set ?e \<subseteq> set (keys women_preferences)"
  proof
    fix w assume "w \<in> fst ` set ?e"
    then obtain m where wm: "(w, m) \<in> set ?e" by auto
    then have "m \<in> set (keys men_preferences)" using ran by (auto simp: image_iff)
    then obtain l where "map_of men_preferences m = Some l" "(m, l) \<in> set men_preferences"
      using key_lookup by fastforce
    with assms have "set (prefs_of men_preferences m) = set (keys women_preferences)"
      by (auto simp: valid_input_def prefs_of_def)
    with engaged_within_lists [OF r] wm show "w \<in> set (keys women_preferences)" by auto
  qed
  have c1: "card (fst ` set ?e) = length ?e"
    using d1 distinct_card [of "map fst ?e"] by simp
  have c2: "card (snd ` set ?e) = length ?e"
    using d2 distinct_card [of "map snd ?e"] by simp
  have km: "card (set (keys men_preferences)) = length men_preferences"
    using dk distinct_card [of "keys men_preferences"] by (simp add: keys_def)
  have kw: "card (set (keys women_preferences)) = length women_preferences"
    using dw distinct_card [of "keys women_preferences"] by (simp add: keys_def)
  have le1: "length ?e \<le> length men_preferences"
    using card_mono [OF _ ran] c2 km by simp
  have le2: "length ?e \<le> length women_preferences"
    using card_mono [OF _ dom] c1 kw by simp
  have len: "length ?e = min (length men_preferences) (length women_preferences)"
    using final_all_matched_or_all_engaged [OF r f assms]
  proof
    assume "set (keys men_preferences) \<subseteq> snd ` set ?e"
    with ran have "snd ` set ?e = set (keys men_preferences)" by auto
    with c2 km have "length ?e = length men_preferences" by simp
    with le2 show ?thesis by simp
  next
    assume "set (keys women_preferences) \<subseteq> fst ` set ?e"
    with dom have "fst ` set ?e = set (keys women_preferences)" by auto
    with c1 kw have "length ?e = length women_preferences" by simp
    with le1 show ?thesis by simp
  qed
  have "card (set (keys men_preferences) - snd ` set ?e)
      = card (set (keys men_preferences)) - card (snd ` set ?e)"
    using ran by (intro card_Diff_subset) auto
  with c2 km have un: "card (set (keys men_preferences) - snd ` set ?e)
      = length men_preferences - length ?e" by simp
  have "stable_marriage men_preferences women_preferences = Inr ?e"
    using s by (simp add: stable_marriage_def)
  with len un show ?thesis by blast
qed

theorem stable_marriage_partial_matching_witness:
  "valid_input three_men two_women \<and>
   (\<exists>e. stable_marriage three_men two_women = Inr e \<and> length e = 2 \<and>
      card (set (keys three_men) - snd ` set e) = 1)"
proof -
  have "length three_men = 3" "length two_women = 2"
    by (simp_all add: three_men_def two_women_def)
  with stable_marriage_partial_matching [OF three_two_valid] three_two_valid
  show ?thesis by auto
qed

section \<open>\<open>happiness_score\<close> and \<open>track_satisfaction\<close>\<close>

text \<open>
  Both functions read their arguments and build a new value: \<open>score\<close>, a number, and
  \<open>satisfaction\<close>, a fresh dictionary keyed by \<open>(man, woman)\<close>.  Nothing is assigned to an
  argument, so the model takes the arguments and returns the result.  The loop runs over
  \<open>match.items()\<close>; the lookups are made in the order of the source, and a missing key or
  list element ends the run.  Indices and their sums are natural numbers.
\<close>

fun happiness_loop ::
  "('m, 'w list) dict \<Rightarrow> ('w, 'm list) dict \<Rightarrow> ('w \<times> 'm) list \<Rightarrow> nat \<Rightarrow> error + nat" where
  "happiness_loop men_prefs women_prefs [] score = Inr score"
| "happiness_loop men_prefs women_prefs ((woman, man) # rest) score =
     (case getitem men_prefs man of
        Inl e \<Rightarrow> Inl e
      | Inr ml \<Rightarrow>
          (case list_index ml woman of
             Inl e \<Rightarrow> Inl e
           | Inr i \<Rightarrow>
               (case getitem women_prefs woman of
                  Inl e \<Rightarrow> Inl e
                | Inr wl \<Rightarrow>
                    (case list_index wl man of
                       Inl e \<Rightarrow> Inl e
                     | Inr j \<Rightarrow> happiness_loop men_prefs women_prefs rest (score + (i + j))))))"

definition happiness_score ::
  "('m, 'w list) dict \<Rightarrow> ('w, 'm list) dict \<Rightarrow> ('w, 'm) dict \<Rightarrow> error + nat" where
  "happiness_score men_prefs women_prefs match = happiness_loop men_prefs women_prefs match 0"

fun satisfaction_loop ::
  "('m, 'w list) dict \<Rightarrow> ('w, 'm list) dict \<Rightarrow> ('w \<times> 'm) list \<Rightarrow>
     ('m \<times> 'w, nat \<times> nat) dict \<Rightarrow> error + ('m \<times> 'w, nat \<times> nat) dict" where
  "satisfaction_loop men_prefs women_prefs [] satisfaction = Inr satisfaction"
| "satisfaction_loop men_prefs women_prefs ((woman, man) # rest) satisfaction =
     (case getitem men_prefs man of
        Inl e \<Rightarrow> Inl e
      | Inr ml \<Rightarrow>
          (case list_index ml woman of
             Inl e \<Rightarrow> Inl e
           | Inr man_satisfaction \<Rightarrow>
               (case getitem women_prefs woman of
                  Inl e \<Rightarrow> Inl e
                | Inr wl \<Rightarrow>
                    (case list_index wl man of
                       Inl e \<Rightarrow> Inl e
                     | Inr woman_satisfaction \<Rightarrow>
                         satisfaction_loop men_prefs women_prefs rest
                           (AList.update (man, woman) (man_satisfaction, woman_satisfaction)
                              satisfaction)))))"

definition track_satisfaction ::
  "('w, 'm) dict \<Rightarrow> ('m, 'w list) dict \<Rightarrow> ('w, 'm list) dict \<Rightarrow>
     error + ('m \<times> 'w, nat \<times> nat) dict" where
  "track_satisfaction matches men_prefs women_prefs =
     satisfaction_loop men_prefs women_prefs matches []"

text \<open>
  The report in the words of the specification: for a pair, the rank of the woman in the
  man's list and the rank of the man in the woman's list (0 the most preferred), and the
  sum of both over all pairs.  \<open>ranked_pairs\<close> says that \<open>match\<close> is a dictionary whose pairs
  occur in each other's lists.
\<close>

definition pair_ranks ::
  "('m, 'w list) dict \<Rightarrow> ('w, 'm list) dict \<Rightarrow> 'w \<times> 'm \<Rightarrow> nat \<times> nat" where
  "pair_ranks men_prefs women_prefs pair =
     (case pair of (woman, man) \<Rightarrow>
        (rank (prefs_of men_prefs man) woman, rank (prefs_of women_prefs woman) man))"

definition rank_sum ::
  "('m, 'w list) dict \<Rightarrow> ('w, 'm list) dict \<Rightarrow> ('w, 'm) dict \<Rightarrow> nat" where
  "rank_sum men_prefs women_prefs match =
     sum_list (map (\<lambda>pair. fst (pair_ranks men_prefs women_prefs pair)
                          + snd (pair_ranks men_prefs women_prefs pair)) match)"

definition ranked_pairs ::
  "('m, 'w list) dict \<Rightarrow> ('w, 'm list) dict \<Rightarrow> ('w, 'm) dict \<Rightarrow> bool" where
  "ranked_pairs men_prefs women_prefs match =
     (distinct (map fst match) \<and>
      (\<forall>(woman, man) \<in> set match.
         woman \<in> set (prefs_of men_prefs man) \<and> man \<in> set (prefs_of women_prefs woman)))"

lemma prefs_of_member:
  "x \<in> set (prefs_of d k) \<Longrightarrow> getitem d k = Inr (prefs_of d k)"
  by (cases "map_of d k") (simp_all add: prefs_of_def getitem_def)

lemma happiness_loop_sum:
  assumes "\<forall>(woman, man) \<in> set match.
      woman \<in> set (prefs_of men_prefs man) \<and> man \<in> set (prefs_of women_prefs woman)"
  shows "happiness_loop men_prefs women_prefs match score =
     Inr (score + rank_sum men_prefs women_prefs match)"
  using assms
proof (induction match arbitrary: score)
  case Nil
  then show ?case by (simp add: rank_sum_def)
next
  case (Cons pair rest)
  obtain woman man where pair: "pair = (woman, man)" by (cases pair)
  from Cons.prems pair have w: "woman \<in> set (prefs_of men_prefs man)"
    and m: "man \<in> set (prefs_of women_prefs woman)" by auto
  from Cons.prems have "\<forall>(woman, man) \<in> set rest.
      woman \<in> set (prefs_of men_prefs man) \<and> man \<in> set (prefs_of women_prefs woman)" by simp
  from Cons.IH [OF this] pair w m show ?case
    by (simp add: prefs_of_member list_index_rank rank_sum_def pair_ranks_def)
qed

lemma satisfaction_loop_entries:
  assumes "\<forall>(woman, man) \<in> set match.
      woman \<in> set (prefs_of men_prefs man) \<and> man \<in> set (prefs_of women_prefs woman)"
    and "distinct (map fst match)"
    and "\<forall>(woman, man) \<in> set match. (man, woman) \<notin> fst ` set acc"
  shows "satisfaction_loop men_prefs women_prefs match acc =
     Inr (acc @ map (\<lambda>(woman, man). ((man, woman), pair_ranks men_prefs women_prefs (woman, man)))
                  match)"
  using assms
proof (induction match arbitrary: acc)
  case Nil
  then show ?case by simp
next
  case (Cons pair rest)
  obtain woman man where pair: "pair = (woman, man)" by (cases pair)
  let ?v = "pair_ranks men_prefs women_prefs (woman, man)"
  from Cons.prems(1) pair have w: "woman \<in> set (prefs_of men_prefs man)"
    and m: "man \<in> set (prefs_of women_prefs woman)" by auto
  from Cons.prems(3) pair have "map_of acc (man, woman) = None"
    by (simp add: map_of_eq_None_iff)
  then have u: "AList.update (man, woman) ?v acc = acc @ [((man, woman), ?v)]"
    by (rule update_absent)
  have 1: "\<forall>(woman, man) \<in> set rest.
      woman \<in> set (prefs_of men_prefs man) \<and> man \<in> set (prefs_of women_prefs woman)"
    using Cons.prems(1) by simp
  have 2: "distinct (map fst rest)" using Cons.prems(2) by simp
  have 3: "\<forall>(w, m) \<in> set rest. (m, w) \<notin> fst ` set (acc @ [((man, woman), ?v)])"
    using Cons.prems(2,3) pair by (auto simp: image_iff)
  from Cons.IH [OF 1 2 3] pair w m u show ?case
    by (simp add: prefs_of_member list_index_rank pair_ranks_def)
qed

text \<open>
  C9.  For a matching whose pairs occur in each other's lists, \<open>happiness_score\<close> returns
  the sum over the pairs of both ranks, and \<open>track_satisfaction\<close> returns, pair by pair in
  the order of \<open>match\<close>, the two ranks under the key \<open>(man, woman)\<close>.  The result depends on
  the three arguments alone.
\<close>

theorem happiness_score_rank_sum:
  assumes "ranked_pairs men_prefs women_prefs match"
  shows "happiness_score men_prefs women_prefs match =
           Inr (rank_sum men_prefs women_prefs match) \<and>
         track_satisfaction match men_prefs women_prefs =
           Inr (map (\<lambda>(woman, man).
                  ((man, woman), pair_ranks men_prefs women_prefs (woman, man))) match)"
proof -
  from assms have a: "\<forall>(woman, man) \<in> set match.
      woman \<in> set (prefs_of men_prefs man) \<and> man \<in> set (prefs_of women_prefs woman)"
    and d: "distinct (map fst match)"
    by (simp_all add: ranked_pairs_def)
  have "happiness_score men_prefs women_prefs match = Inr (rank_sum men_prefs women_prefs match)"
    using happiness_loop_sum [OF a, of 0] by (simp add: happiness_score_def)
  moreover have "track_satisfaction match men_prefs women_prefs =
      Inr (map (\<lambda>(woman, man).
             ((man, woman), pair_ranks men_prefs women_prefs (woman, man))) match)"
    using satisfaction_loop_entries [OF a d, of "[]"] by (simp add: track_satisfaction_def)
  ultimately show ?thesis by simp
qed

lemma example_ranked:
  "ranked_pairs example_men example_women [(''X'', ''A''), (''Y'', ''B''), (''Z'', ''C'')]"
  by code_simp

theorem happiness_score_rank_sum_witness:
  "ranked_pairs example_men example_women [(''X'', ''A''), (''Y'', ''B''), (''Z'', ''C'')] \<and>
   happiness_score example_men example_women [(''X'', ''A''), (''Y'', ''B''), (''Z'', ''C'')]
     = Inr 5 \<and>
   track_satisfaction [(''X'', ''A''), (''Y'', ''B''), (''Z'', ''C'')] example_men example_women
     = Inr [((''A'', ''X''), (0, 1)), ((''B'', ''Y''), (0, 1)), ((''C'', ''Z''), (1, 2))]"
proof -
  have s: "rank_sum example_men example_women [(''X'', ''A''), (''Y'', ''B''), (''Z'', ''C'')] = 5"
    by code_simp
  have p: "map (\<lambda>(woman, man). ((man, woman), pair_ranks example_men example_women (woman, man)))
             [(''X'', ''A''), (''Y'', ''B''), (''Z'', ''C'')]
      = [((''A'', ''X''), (0, 1)), ((''B'', ''Y''), (0, 1)), ((''C'', ''Z''), (1, 2))]"
    by code_simp
  from happiness_score_rank_sum [OF example_ranked] example_ranked s p show ?thesis by simp
qed

section \<open>The score-based variants (Ethical\_Stable\_Marriage\_Matching\_Algorithms.py)\<close>

text \<open>
  \<open>trust_based_stable_marriage\<close>, \<open>honor_based_matching\<close>,
  \<open>emotional_compatibility_matching\<close> and \<open>holistic_matching\<close> are four copies of one loop.
  They differ in the key by which a man's list is sorted when he is taken from the queue
  and in the comparison by which an engaged woman decides.  The loop is written once here,
  with the key and the comparison as arguments; each variant supplies its own.  Scores are
  Python floats; they are modelled as real numbers.  The theorems below are about which
  dictionaries are looked up and at which keys, and do not depend on the arithmetic.

  \<open>sorted(l, key=f, reverse=True)\<close> first calls \<open>f\<close> on every element in turn, then sorts
  by descending key, elements with equal keys staying in their order.
\<close>

fun key_all :: "('a \<Rightarrow> error + real) \<Rightarrow> 'a list \<Rightarrow> error + (real \<times> 'a) list" where
  "key_all key [] = Inr []"
| "key_all key (x # xs) =
     (case key x of
        Inl e \<Rightarrow> Inl e
      | Inr k \<Rightarrow> (case key_all key xs of Inl e \<Rightarrow> Inl e | Inr ks \<Rightarrow> Inr ((k, x) # ks)))"

fun insert_desc :: "real \<times> 'a \<Rightarrow> (real \<times> 'a) list \<Rightarrow> (real \<times> 'a) list" where
  "insert_desc x [] = [x]"
| "insert_desc x (y # ys) = (if fst y < fst x then x # y # ys else y # insert_desc x ys)"

definition sorted_reverse :: "('a \<Rightarrow> error + real) \<Rightarrow> 'a list \<Rightarrow> error + 'a list" where
  "sorted_reverse key l =
     (case key_all key l of
        Inl e \<Rightarrow> Inl e
      | Inr ks \<Rightarrow> Inr (map snd (foldl (\<lambda>acc x. insert_desc x acc) [] ks)))"

definition scored_step ::
  "('m \<Rightarrow> 'w \<Rightarrow> 'm \<Rightarrow> error + bool) \<Rightarrow> 'm \<Rightarrow> 'w \<Rightarrow> ('m, 'w) state \<Rightarrow>
     error + (bool \<times> ('m, 'w) state)" where
  "scored_step better man woman s =
     (case getitem (proposals s) man of
        Inl e \<Rightarrow> Inl e
      | Inr ps \<Rightarrow>
          if woman \<in> set ps then Inr (False, s)
          else
            let s1 = s\<lparr>proposals := AList.update man (ps @ [woman]) (proposals s)\<rparr> in
            (case map_of (engaged s1) woman of
               None \<Rightarrow> Inr (True, s1\<lparr>engaged := AList.update woman man (engaged s1)\<rparr>)
             | Some current_man \<Rightarrow>
                 (case better man woman current_man of
                    Inl e \<Rightarrow> Inl e
                  | Inr b \<Rightarrow>
                      if b
                      then Inr (True,
                             s1\<lparr>free_men := free_men s1 @ [current_man],
                                engaged := AList.update woman man (engaged s1)\<rparr>)
                      else Inr (False, s1))))"

fun scored_for ::
  "('m \<Rightarrow> 'w \<Rightarrow> 'm \<Rightarrow> error + bool) \<Rightarrow> 'm \<Rightarrow> 'w list \<Rightarrow> ('m, 'w) state \<Rightarrow>
     error + ('m, 'w) state" where
  "scored_for better man [] s = Inr s"
| "scored_for better man (woman # rest) s =
     (case scored_step better man woman s of
        Inl e \<Rightarrow> Inl e
      | Inr (brk, s') \<Rightarrow> if brk then Inr s' else scored_for better man rest s')"

definition scored_body ::
  "('m \<Rightarrow> 'w \<Rightarrow> error + real) \<Rightarrow> ('m \<Rightarrow> 'w \<Rightarrow> 'm \<Rightarrow> error + bool) \<Rightarrow>
     ('m, 'w list) dict \<Rightarrow> ('m, 'w) state \<Rightarrow> error + ('m, 'w) state" where
  "scored_body key better men_preferences s =
     (case free_men s of
        [] \<Rightarrow> Inr s
      | man # rest \<Rightarrow>
          (case getitem men_preferences man of
             Inl e \<Rightarrow> Inl e
           | Inr man_pref_list \<Rightarrow>
               (case sorted_reverse (key man) man_pref_list of
                  Inl e \<Rightarrow> Inl e
                | Inr sorted_prefs \<Rightarrow>
                    scored_for better man sorted_prefs (s\<lparr>free_men := rest\<rparr>))))"

text \<open>Termination of the loop, by the measure of \<open>stable_marriage\<close>.\<close>

lemma key_all_snd: "key_all key l = Inr ks \<Longrightarrow> map snd ks = l"
  by (induction l arbitrary: ks) (auto split: sum.splits)

lemma set_insert_desc: "set (insert_desc x ys) = insert x (set ys)"
  by (induction ys) auto

lemma set_foldl_insert_desc:
  "set (foldl (\<lambda>acc x. insert_desc x acc) acc ks) = set acc \<union> set ks"
  by (induction ks arbitrary: acc) (auto simp: set_insert_desc)

lemma sorted_reverse_set: "sorted_reverse key l = Inr sl \<Longrightarrow> set sl = set l"
proof -
  assume a: "sorted_reverse key l = Inr sl"
  then obtain ks where ks: "key_all key l = Inr ks"
    and sl: "sl = map snd (foldl (\<lambda>acc x. insert_desc x acc) [] ks)"
    by (auto simp: sorted_reverse_def split: sum.splits)
  from sl have "set sl = snd ` set ks" by (simp add: set_foldl_insert_desc)
  also have "\<dots> = set (map snd ks)" by simp
  also have "\<dots> = set l" using key_all_snd [OF ks] by simp
  finally show ?thesis .
qed

lemma scored_step_measure:
  assumes "scored_step better man woman s = Inr (brk, s')"
    and "map_of men_preferences man = Some l" and "woman \<in> set l"
  shows "loop_measure men_preferences s' \<le> loop_measure men_preferences s"
proof -
  obtain ps where ps: "map_of (proposals s) man = Some ps"
    using assms(1) by (auto simp: scored_step_def getitem_def split: option.splits)
  show ?thesis
  proof (cases "woman \<in> set ps")
    case True
    with assms(1) ps have "s' = s"
      by (simp add: scored_step_def getitem_def)
    then show ?thesis by simp
  next
    case False
    from assms(1) ps False
    have upd: "proposals s' = AList.update man (ps @ [woman]) (proposals s)"
      and len: "length (free_men s') \<le> Suc (length (free_men s))"
      by (auto simp: scored_step_def getitem_def Let_def
          split: option.splits sum.splits if_splits)
    have "remaining men_preferences s' < remaining men_preferences s"
      by (rule remaining_append [OF assms(2,3) ps False upd])
    with len show ?thesis by (simp add: loop_measure_def)
  qed
qed

lemma scored_for_measure:
  assumes "scored_for better man ws s = Inr s'"
    and "map_of men_preferences man = Some l" and "set ws \<subseteq> set l"
  shows "loop_measure men_preferences s' \<le> loop_measure men_preferences s"
  using assms
proof (induction ws arbitrary: s)
  case Nil
  then show ?case by simp
next
  case (Cons woman rest)
  from Cons.prems(1) obtain brk s1
    where step: "scored_step better man woman s = Inr (brk, s1)"
      and rest: "if brk then s' = s1 else scored_for better man rest s1 = Inr s'"
    by (auto split: sum.splits if_splits)
  have m1: "loop_measure men_preferences s1 \<le> loop_measure men_preferences s"
    using scored_step_measure [OF step Cons.prems(2)] Cons.prems(3) by simp
  show ?case
  proof (cases brk)
    case True
    with rest m1 show ?thesis by simp
  next
    case False
    with rest have "scored_for better man rest s1 = Inr s'" by simp
    from Cons.IH [OF this Cons.prems(2)] Cons.prems(3)
    have "loop_measure men_preferences s' \<le> loop_measure men_preferences s1" by simp
    with m1 show ?thesis by simp
  qed
qed

lemma scored_body_measure:
  assumes "scored_body key better men_preferences s = Inr s'" and "free_men s \<noteq> []"
  shows "loop_measure men_preferences s' < loop_measure men_preferences s"
proof -
  from assms(2) obtain man rest where fm: "free_men s = man # rest"
    by (cases "free_men s") auto
  with assms(1) obtain l sl where l: "map_of men_preferences man = Some l"
    and sl: "sorted_reverse (key man) l = Inr sl"
    and fw: "scored_for better man sl (s\<lparr>free_men := rest\<rparr>) = Inr s'"
    by (auto simp: scored_body_def getitem_def split: option.splits sum.splits)
  have "loop_measure men_preferences s' \<le> loop_measure men_preferences (s\<lparr>free_men := rest\<rparr>)"
    using sorted_reverse_set [OF sl] by (intro scored_for_measure [OF fw l]) simp
  also have "\<dots> < loop_measure men_preferences s"
    using fm by (simp add: loop_measure_def remaining_def proposed_def)
  finally show ?thesis .
qed

function scored_while ::
  "('m \<Rightarrow> 'w \<Rightarrow> error + real) \<Rightarrow> ('m \<Rightarrow> 'w \<Rightarrow> 'm \<Rightarrow> error + bool) \<Rightarrow>
     ('m, 'w list) dict \<Rightarrow> ('m, 'w) state \<Rightarrow> error + ('m, 'w) state" where
  "scored_while key better men_preferences s =
     (if free_men s = [] then Inr s
      else case scored_body key better men_preferences s of
             Inl e \<Rightarrow> Inl e
           | Inr s' \<Rightarrow> scored_while key better men_preferences s')"
  by pat_completeness auto
termination
  by (relation "measure (\<lambda>(key, better, men_preferences, s).
        loop_measure men_preferences s)")
     (auto simp: scored_body_measure)

declare scored_while.simps [simp del]

definition scored_matching ::
  "('m \<Rightarrow> 'w \<Rightarrow> error + real) \<Rightarrow> ('m \<Rightarrow> 'w \<Rightarrow> 'm \<Rightarrow> error + bool) \<Rightarrow>
     ('m, 'w list) dict \<Rightarrow> error + ('w, 'm) dict" where
  "scored_matching key better men_preferences =
     (case scored_while key better men_preferences (initial_state men_preferences) of
        Inl e \<Rightarrow> Inl e
      | Inr s \<Rightarrow> Inr (engaged s))"

text \<open>
  The keys and comparisons of the variants: \<open>scores[(man, woman)]\<close> and
  \<open>scores[(man, woman)] > scores[(current_man, woman)]\<close> for the three single-score
  variants; the weighted sum of three scores and
  \<open>care_thresholds[(woman, man)] > care_thresholds[(woman, current_man)]\<close> for
  \<open>holistic_matching\<close>.  None of them reads \<open>women_preferences\<close>.
\<close>

definition score_key :: "('m \<times> 'w, real) dict \<Rightarrow> 'm \<Rightarrow> 'w \<Rightarrow> error + real" where
  "score_key scores man woman = getitem scores (man, woman)"

definition score_greater :: "('m \<times> 'w, real) dict \<Rightarrow> 'm \<Rightarrow> 'w \<Rightarrow> 'm \<Rightarrow> error + bool" where
  "score_greater scores man woman current_man =
     (case getitem scores (man, woman) of
        Inl e \<Rightarrow> Inl e
      | Inr a \<Rightarrow>
          (case getitem scores (current_man, woman) of
             Inl e \<Rightarrow> Inl e
           | Inr b \<Rightarrow> Inr (a > b)))"

definition care_greater :: "('w \<times> 'm, real) dict \<Rightarrow> 'm \<Rightarrow> 'w \<Rightarrow> 'm \<Rightarrow> error + bool" where
  "care_greater care_thresholds man woman current_man =
     (case getitem care_thresholds (woman, man) of
        Inl e \<Rightarrow> Inl e
      | Inr a \<Rightarrow>
          (case getitem care_thresholds (woman, current_man) of
             Inl e \<Rightarrow> Inl e
           | Inr b \<Rightarrow> Inr (a > b)))"

definition holistic_key ::
  "('m \<times> 'w, real) dict \<Rightarrow> ('m \<times> 'w, real) dict \<Rightarrow> ('m \<times> 'w, real) dict \<Rightarrow>
     'm \<Rightarrow> 'w \<Rightarrow> error + real" where
  "holistic_key trust_scores honor_weights emotional_scores man woman =
     (case getitem trust_scores (man, woman) of
        Inl e \<Rightarrow> Inl e
      | Inr t \<Rightarrow>
          (case getitem honor_weights (man, woman) of
             Inl e \<Rightarrow> Inl e
           | Inr h \<Rightarrow>
               (case getitem emotional_scores (man, woman) of
                  Inl e \<Rightarrow> Inl e
                | Inr em \<Rightarrow> Inr (t * 0.4 + h * 0.3 + em * 0.3))))"

definition trust_based_stable_marriage ::
  "('m, 'w list) dict \<Rightarrow> ('w, 'm list) dict \<Rightarrow> ('m \<times> 'w, real) dict \<Rightarrow> error + ('w, 'm) dict" where
  "trust_based_stable_marriage men_preferences women_preferences trust_scores =
     scored_matching (score_key trust_scores) (score_greater trust_scores) men_preferences"

definition honor_based_matching ::
  "('m, 'w list) dict \<Rightarrow> ('w, 'm list) dict \<Rightarrow> ('m \<times> 'w, real) dict \<Rightarrow> error + ('w, 'm) dict" where
  "honor_based_matching men_preferences women_preferences honor_weights =
     scored_matching (score_key honor_weights) (score_greater honor_weights) men_preferences"

definition emotional_compatibility_matching ::
  "('m, 'w list) dict \<Rightarrow> ('w, 'm list) dict \<Rightarrow> ('m \<times> 'w, real) dict \<Rightarrow> error + ('w, 'm) dict" where
  "emotional_compatibility_matching men_preferences women_preferences emotional_scores =
     scored_matching (score_key emotional_scores) (score_greater emotional_scores)
       men_preferences"

definition holistic_matching ::
  "('m, 'w list) dict \<Rightarrow> ('w, 'm list) dict \<Rightarrow> ('m \<times> 'w, real) dict \<Rightarrow>
     ('m \<times> 'w, real) dict \<Rightarrow> ('m \<times> 'w, real) dict \<Rightarrow> ('w \<times> 'm, real) dict \<Rightarrow>
     error + ('w, 'm) dict" where
  "holistic_matching men_preferences women_preferences trust_scores honor_weights
       emotional_scores care_thresholds =
     scored_matching (holistic_key trust_scores honor_weights emotional_scores)
       (care_greater care_thresholds) men_preferences"

text \<open>The trust scores of the script, and the same table without the entry of \<open>(C, Z)\<close>.\<close>

definition example_trust :: "(string \<times> string, real) dict" where
  "example_trust =
     [((''A'', ''X''), 0.9), ((''A'', ''Y''), 0.6), ((''A'', ''Z''), 0.8),
      ((''B'', ''X''), 0.7), ((''B'', ''Y''), 0.8), ((''B'', ''Z''), 0.5),
      ((''C'', ''X''), 0.6), ((''C'', ''Y''), 0.7), ((''C'', ''Z''), 0.9)]"

definition trust_without_CZ :: "(string \<times> string, real) dict" where
  "trust_without_CZ =
     [((''A'', ''X''), 0.9), ((''A'', ''Y''), 0.6), ((''A'', ''Z''), 0.8),
      ((''B'', ''X''), 0.7), ((''B'', ''Y''), 0.8), ((''B'', ''Z''), 0.5),
      ((''C'', ''X''), 0.6), ((''C'', ''Y''), 0.7)]"

text \<open>Every exception of these loops is a \<open>KeyError\<close>, and a man waiting in the queue stays there.\<close>

definition only_key_errors ::
  "('m \<Rightarrow> 'w \<Rightarrow> error + real) \<Rightarrow> ('m \<Rightarrow> 'w \<Rightarrow> 'm \<Rightarrow> error + bool) \<Rightarrow> bool" where
  "only_key_errors key better =
     ((\<forall>m w e. key m w = Inl e \<longrightarrow> e = KeyError) \<and>
      (\<forall>m w c e. better m w c = Inl e \<longrightarrow> e = KeyError))"

lemma getitem_error: "getitem d k = Inl e \<Longrightarrow> e = KeyError"
  by (auto simp: getitem_def split: option.splits)

lemma only_key_errors_score: "only_key_errors (score_key scores) (score_greater scores)"
  by (auto simp: only_key_errors_def score_key_def score_greater_def
      split: sum.splits dest: getitem_error)

lemma only_key_errors_holistic:
  "only_key_errors (holistic_key trust_scores honor_weights emotional_scores)
     (care_greater care_thresholds)"
  by (auto simp: only_key_errors_def holistic_key_def care_greater_def
      split: sum.splits dest: getitem_error)

lemma key_all_error:
  assumes "key_all key l = Inl e" and "\<forall>w e. key w = Inl e \<longrightarrow> e = KeyError"
  shows "e = KeyError"
  using assms by (induction l) (auto split: sum.splits)

lemma key_all_missing:
  assumes "w \<in> set l" and "key w = Inl e0"
  shows "\<exists>e. key_all key l = Inl e"
  using assms by (induction l) (auto split: sum.splits)

lemma sorted_reverse_error:
  assumes "sorted_reverse key l = Inl e" and "\<forall>w e. key w = Inl e \<longrightarrow> e = KeyError"
  shows "e = KeyError"
  using assms key_all_error [of key l e]
  by (auto simp: sorted_reverse_def split: sum.splits)

lemma sorted_reverse_missing:
  assumes "w \<in> set l" and "key w = Inl e0"
  shows "\<exists>e. sorted_reverse key l = Inl e"
  using key_all_missing [of w l key e0] assms by (auto simp: sorted_reverse_def)

lemma scored_step_error:
  assumes "scored_step better man woman s = Inl e"
    and "\<forall>m w c e. better m w c = Inl e \<longrightarrow> e = KeyError"
  shows "e = KeyError"
  using assms
  by (auto simp: scored_step_def Let_def split: sum.splits option.splits if_splits
      dest: getitem_error)

lemma scored_step_free:
  assumes "scored_step better man woman s = Inr (brk, s')"
  shows "set (free_men s) \<subseteq> set (free_men s')"
  using assms
  by (auto simp: scored_step_def Let_def split: sum.splits option.splits if_splits)

lemma scored_for_error:
  assumes "scored_for better man ws s = Inl e"
    and "\<forall>m w c e. better m w c = Inl e \<longrightarrow> e = KeyError"
  shows "e = KeyError"
  using assms
proof (induction ws arbitrary: s)
  case Nil
  then show ?case by simp
next
  case (Cons woman rest)
  show ?case
  proof (cases "scored_step better man woman s")
    case (Inl e')
    with Cons.prems(1) have "e' = e" by simp
    with Inl scored_step_error [OF _ Cons.prems(2)] show ?thesis by blast
  next
    case (Inr r)
    obtain brk s1 where r: "r = (brk, s1)" by (cases r)
    with Inr Cons.prems(1) have "scored_for better man rest s1 = Inl e"
      by (auto split: if_splits)
    from Cons.IH [OF this Cons.prems(2)] show ?thesis .
  qed
qed

lemma scored_for_free:
  assumes "scored_for better man ws s = Inr s'"
  shows "set (free_men s) \<subseteq> set (free_men s')"
  using assms
proof (induction ws arbitrary: s)
  case Nil
  then show ?case by simp
next
  case (Cons woman rest)
  from Cons.prems obtain brk s1
    where step: "scored_step better man woman s = Inr (brk, s1)"
      and rest: "if brk then s' = s1 else scored_for better man rest s1 = Inr s'"
    by (auto split: sum.splits if_splits)
  from scored_step_free [OF step] rest Cons.IH [of s1] show ?case
    by (cases brk) auto
qed

lemma scored_body_missing:
  assumes m0: "m0 \<in> set (free_men s)" and l: "map_of men_preferences m0 = Some l"
    and w0: "w0 \<in> set l" and k: "key m0 w0 = Inl KeyError"
    and ok: "only_key_errors key better"
  shows "scored_body key better men_preferences s = Inl KeyError \<or>
         (\<exists>s'. scored_body key better men_preferences s = Inr s' \<and> m0 \<in> set (free_men s'))"
proof -
  from m0 obtain man rest where fm: "free_men s = man # rest"
    by (cases "free_men s") auto
  from ok have ke: "\<forall>w e. key man w = Inl e \<longrightarrow> e = KeyError"
    and be: "\<forall>m w c e. better m w c = Inl e \<longrightarrow> e = KeyError"
    by (auto simp: only_key_errors_def)
  show ?thesis
  proof (cases "getitem men_preferences man")
    case (Inl e)
    with fm getitem_error [OF Inl] show ?thesis by (simp add: scored_body_def)
  next
    case (Inr lst)
    show ?thesis
    proof (cases "sorted_reverse (key man) lst")
      case (Inl e)
      with fm Inr sorted_reverse_error [OF Inl ke] show ?thesis
        by (simp add: scored_body_def)
    next
      case sorted: (Inr sl)
      have ne: "man \<noteq> m0"
      proof
        assume "man = m0"
        with Inr l have "lst = l" by (simp add: getitem_def)
        with sorted_reverse_missing [of w0 l "key m0" KeyError] w0 k sorted \<open>man = m0\<close>
        show False by auto
      qed
      with m0 fm have in_rest: "m0 \<in> set rest" by simp
      show ?thesis
      proof (cases "scored_for better man sl (s\<lparr>free_men := rest\<rparr>)")
        case (Inl e)
        with fm Inr sorted scored_for_error [OF Inl be] show ?thesis
          by (simp add: scored_body_def)
      next
        case fin: (Inr s')
        from scored_for_free [OF fin] in_rest have "m0 \<in> set (free_men s')" by auto
        with fm Inr sorted fin show ?thesis by (simp add: scored_body_def)
      qed
    qed
  qed
qed

lemma scored_while_missing:
  assumes "m0 \<in> set (free_men s)" and "map_of men_preferences m0 = Some l"
    and "w0 \<in> set l" and "key m0 w0 = Inl KeyError"
    and "only_key_errors key better"
  shows "scored_while key better men_preferences s = Inl KeyError"
  using assms
proof (induction key better men_preferences s rule: scored_while.induct)
  case (1 key better men_preferences s)
  from "1.prems"(1) have ne: "free_men s \<noteq> []" by auto
  from scored_body_missing [OF "1.prems"] show ?case
  proof
    assume "scored_body key better men_preferences s = Inl KeyError"
    with ne show ?thesis by (subst scored_while.simps) simp
  next
    assume "\<exists>s'. scored_body key better men_preferences s = Inr s' \<and> m0 \<in> set (free_men s')"
    then obtain s' where b: "scored_body key better men_preferences s = Inr s'"
      and m: "m0 \<in> set (free_men s')" by blast
    from "1.IH" [OF ne b m "1.prems"(2-5)] ne b show ?thesis
      by (subst scored_while.simps) simp
  qed
qed

lemma scored_matching_missing:
  assumes "map_of men_preferences m0 = Some l" and "w0 \<in> set l"
    and "key m0 w0 = Inl KeyError" and "only_key_errors key better"
  shows "scored_matching key better men_preferences = Inl KeyError"
proof -
  from assms(1) have "m0 \<in> set (free_men (initial_state men_preferences))"
    by (auto simp: initial_state_def dest!: map_of_SomeD intro: rev_image_eqI)
  from scored_while_missing [OF this assms] show ?thesis
    by (simp add: scored_matching_def)
qed

text \<open>
  C7.  The claim has every score checked before the proposal loop and an
  \<open>IncompleteAffinityError\<close> raised then.  The code checks nothing beforehand: with the
  score of \<open>(C, Z)\<close> missing, the first turn of the loop completes, \<open>A\<close> proposes to \<open>X\<close> and
  is engaged, and the run ends in the \<open>KeyError\<close> of the lookup only when the list of \<open>C\<close> is
  sorted.
\<close>

theorem missing_score_after_proposals_counterexample:
  "scored_body (score_key trust_without_CZ) (score_greater trust_without_CZ) example_men
     (initial_state example_men)
     = Inr \<lparr>free_men = [''B'', ''C''],
            engaged = [(''X'', ''A'')],
            proposals = [(''A'', [''X'']), (''B'', []), (''C'', [])]\<rparr> \<and>
   trust_based_stable_marriage example_men example_women trust_without_CZ = Inl KeyError"
  by code_simp

text \<open>
  C7, as the code has it.  In \<open>trust_based_stable_marriage\<close> and \<open>holistic_matching\<close> a
  score that is missing for a proposer of \<open>men_preferences\<close> and a receiver of his list is
  never replaced by a default: the run ends in \<open>KeyError\<close>.
\<close>

theorem missing_score_key_error:
  assumes "map_of men_preferences man = Some man_pref_list" and "woman \<in> set man_pref_list"
  shows "(map_of trust_scores (man, woman) = None \<longrightarrow>
            trust_based_stable_marriage men_preferences women_preferences trust_scores
              = Inl KeyError) \<and>
         (map_of trust_scores (man, woman) = None \<or> map_of honor_weights (man, woman) = None \<or>
          map_of emotional_scores (man, woman) = None \<longrightarrow>
            holistic_matching men_preferences women_preferences trust_scores honor_weights
              emotional_scores care_thresholds = Inl KeyError)"
proof (intro conjI impI)
  assume "map_of trust_scores (man, woman) = None"
  then have "score_key trust_scores man woman = Inl KeyError"
    by (simp add: score_key_def getitem_def)
  from scored_matching_missing [OF assms this only_key_errors_score]
  show "trust_based_stable_marriage men_preferences women_preferences trust_scores = Inl KeyError"
    by (simp add: trust_based_stable_marriage_def)
next
  assume "map_of trust_scores (man, woman) = None \<or> map_of honor_weights (man, woman) = None \<or>
    map_of emotional_scores (man, woman) = None"
  then have "holistic_key trust_scores honor_weights emotional_scores man woman = Inl KeyError"
    by (auto simp: holistic_key_def getitem_def split: option.splits)
  from scored_matching_missing [OF assms this only_key_errors_holistic]
  show "holistic_matching men_preferences women_preferences trust_scores honor_weights
      emotional_scores care_thresholds = Inl KeyError"
    by (simp add: holistic_matching_def)
qed

theorem missing_score_key_error_witness:
  "map_of example_men ''C'' = Some [''Y'', ''Z'', ''X''] \<and> ''Z'' \<in> set [''Y'', ''Z'', ''X''] \<and>
   map_of trust_without_CZ (''C'', ''Z'') = None \<and>
   trust_based_stable_marriage example_men example_women trust_without_CZ = Inl KeyError \<and>
   holistic_matching example_men example_women trust_without_CZ example_trust example_trust []
     = Inl KeyError"
proof -
  have a: "map_of example_men ''C'' = Some [''Y'', ''Z'', ''X'']"
    by (simp add: example_men_def)
  have b: "''Z'' \<in> set [''Y'', ''Z'', ''X'']" by simp
  have c: "map_of trust_without_CZ (''C'', ''Z'') = None"
    by (simp add: trust_without_CZ_def)
  from missing_score_key_error [OF a b, of trust_without_CZ example_women example_trust
      example_trust "[]"] a b c
  show ?thesis by simp
qed

text \<open>
  C10.  The four score-based variants return the same result for any two values of
  \<open>women_preferences\<close>, all other arguments being equal.
\<close>

theorem score_variants_ignore_women_preferences:
  "trust_based_stable_marriage men_preferences women_preferences trust_scores =
     trust_based_stable_marriage men_preferences women_preferences' trust_scores \<and>
   honor_based_matching men_preferences women_preferences honor_weights =
     honor_based_matching men_preferences women_preferences' honor_weights \<and>
   emotional_compatibility_matching men_preferences women_preferences emotional_scores =
     emotional_compatibility_matching men_preferences women_preferences' emotional_scores \<and>
   holistic_matching men_preferences women_preferences trust_scores honor_weights
       emotional_scores care_thresholds =
     holistic_matching men_preferences women_preferences' trust_scores honor_weights
       emotional_scores care_thresholds"
  by (simp add: trust_based_stable_marriage_def honor_based_matching_def
      emotional_compatibility_matching_def holistic_matching_def)

section \<open>Proposer-optimality of \<open>stable_marriage\<close>\<close>











end
